theory Spec2Isabelle
  imports Main "HOL-Library.Sublist"
begin

section \<open>Static generation of a package's \<^verbatim>\<open>__init__.py\<close> (ubelt, \<^verbatim>\<open>static_autogen.py\<close>)\<close>

text \<open>
  A shallow embedding of \<^verbatim>\<open>src/ubelt/_internal/static_autogen.py\<close>. Python strings
  are HOL strings (lists of characters, one \<^typ>\<open>char\<close> per code point below 256), with
  the string and file operations of Python 3; line numbers are natural numbers, every exception the source can raise is a value of the
  type \<open>error\<close>, and the file system and the functions of \<^verbatim>\<open>xdoctest.static_analysis\<close>
  (which is not part of the repository) are fields of a record that the functions take
  as an argument.
\<close>

subsection \<open>Python string operations used by the source\<close>

abbreviation NL :: char where
  "NL \<equiv> CHR 0x0A"

abbreviation SP :: char where
  "SP \<equiv> CHR 0x20"

text \<open>\<^verbatim>\<open>str.isspace\<close> of Python 3 on the code points below 256.\<close>

definition isspace :: "char \<Rightarrow> bool" where
  "isspace c = (c \<in> set [CHR 0x09, CHR 0x0A, CHR 0x0B, CHR 0x0C, CHR 0x0D,
                           CHR 0x1C, CHR 0x1D, CHR 0x1E, CHR 0x1F, CHR 0x20,
                           CHR 0x85, CHR 0xA0])"

definition lstrip :: "string \<Rightarrow> string" where
  "lstrip s = dropWhile isspace s"

definition rstrip :: "string \<Rightarrow> string" where
  "rstrip s = rev (dropWhile isspace (rev s))"

definition strip :: "string \<Rightarrow> string" where
  "strip s = rstrip (lstrip s)"

text \<open>\<^verbatim>\<open>s.startswith(p)\<close>.\<close>

fun startswith :: "string \<Rightarrow> string \<Rightarrow> bool" where
  "startswith s [] = True"
| "startswith [] (p # ps) = False"
| "startswith (c # cs) (p # ps) = (c = p \<and> startswith cs ps)"

text \<open>\<^verbatim>\<open>s.find(c)\<close> for a one-character \<open>c\<close>: the first index, or \<open>-1\<close>.\<close>

fun find_from :: "int \<Rightarrow> char \<Rightarrow> string \<Rightarrow> int" where
  "find_from i c [] = -1"
| "find_from i c (d # ds) = (if d = c then i else find_from (i + 1) c ds)"

definition find :: "string \<Rightarrow> char \<Rightarrow> int" where
  "find s c = find_from 0 c s"

text \<open>The slice \<^verbatim>\<open>s[:k]\<close>; a negative \<open>k\<close> counts from the end.\<close>

definition slice_to :: "string \<Rightarrow> int \<Rightarrow> string" where
  "slice_to s k = (if 0 \<le> k then take (nat k) s else take (nat (int (length s) + k)) s)"

text \<open>\<^verbatim>\<open>sep.join(parts)\<close>.\<close>

fun join :: "string \<Rightarrow> string list \<Rightarrow> string" where
  "join sep [] = []"
| "join sep [x] = x"
| "join sep (x # y # ys) = x @ sep @ join sep (y # ys)"

text \<open>\<^verbatim>\<open>s.replace('\n', r)\<close>: every newline character is replaced by \<open>r\<close>.\<close>

definition replace_nl :: "string \<Rightarrow> string \<Rightarrow> string" where
  "replace_nl r s = concat (map (\<lambda>c. if c = NL then r else [c]) s)"

text \<open>
  Reading a text file (Python 3, \<^verbatim>\<open>open(path, 'r')\<close>): universal newlines turn
  \<^verbatim>\<open>\r\n\<close> and a lone \<^verbatim>\<open>\r\<close> into \<^verbatim>\<open>\n\<close>; \<^verbatim>\<open>readlines\<close> then cuts the text
  after every \<^verbatim>\<open>\n\<close>, each line keeping its terminator.
\<close>

fun universal_newlines :: "string \<Rightarrow> string" where
  "universal_newlines [] = []"
| "universal_newlines (c # cs) =
     (if c = CHR 0x0D then
        (case cs of
           [] \<Rightarrow> [NL]
         | d # ds \<Rightarrow> if d = NL then NL # universal_newlines ds
                     else NL # universal_newlines cs)
      else c # universal_newlines cs)"

fun readlines :: "string \<Rightarrow> string list" where
  "readlines [] = []"
| "readlines (c # cs) =
     (if c = NL then [NL] # readlines cs
      else (case readlines cs of
              [] \<Rightarrow> [[c]]
            | l # ls \<Rightarrow> (c # l) # ls))"

text \<open>\<^verbatim>\<open>os.path.join(a, b)\<close> on a POSIX system, for a relative \<open>b\<close>.\<close>

definition path_join :: "string \<Rightarrow> string \<Rightarrow> string" where
  "path_join a b = (if a = [] \<or> last a = CHR ''/'' then a @ b else a @ ''/'' @ b)"

subsection \<open>Errors and the outside world\<close>

type_synonym path = string

text \<open>
  The exceptions of the source: \<open>ValueError\<close> is raised by \<^verbatim>\<open>autogen_init\<close> for a
  name that does not resolve, \<open>AssertionError\<close> by the two \<^verbatim>\<open>assert\<close> statements,
  \<open>TypeError\<close> and \<open>IOError\<close> by \<^verbatim>\<open>open\<close> (an argument that is no path, a path that
  is no readable file), \<open>ParseError\<close> stands for whatever the parser raises on a source
  text it rejects.
\<close>

datatype error = ValueError string | TypeError | IOError | AssertionError | ParseError

text \<open>
  The file system: the text of every regular file and the set of directories.
  Writing a file changes \<open>files\<close> only.
\<close>

record filesystem =
  files :: "path \<Rightarrow> string option"
  dirs :: "path \<Rightarrow> bool"

definition exists :: "filesystem \<Rightarrow> path \<Rightarrow> bool" where
  "exists fs p = (files fs p \<noteq> None \<or> dirs fs p)"

text \<open>
  \<^verbatim>\<open>open(p, 'r').read()\<close>. The source can pass \<^verbatim>\<open>None\<close> for the path (an
  unresolved module), which \<^verbatim>\<open>open\<close> rejects with a \<^verbatim>\<open>TypeError\<close>.
\<close>

definition open_read :: "filesystem \<Rightarrow> path option \<Rightarrow> error + string" where
  "open_read fs po =
     (case po of
        None \<Rightarrow> Inl TypeError
      | Some p \<Rightarrow> (case files fs p of
                     None \<Rightarrow> Inl IOError
                   | Some raw \<Rightarrow> Inr (universal_newlines raw)))"

definition open_write :: "filesystem \<Rightarrow> path \<Rightarrow> string \<Rightarrow> filesystem" where
  "open_write fs p text = fs\<lparr>files := (files fs)(p \<mapsto> text)\<rparr>"

subsection \<open>The merger: \<^verbatim>\<open>_autogen_init_write\<close> and \<^verbatim>\<open>_indent\<close>\<close>

definition indent :: "string \<Rightarrow> string \<Rightarrow> string" where
  "indent str ind = ind @ replace_nl (NL # ind) str"

text \<open>The variables of the boundary scan (source lines 97-100).\<close>

record region =
  startline :: nat
  endline :: nat
  explicit :: bool
  init_indent :: string

definition begin_marker :: string where
  "begin_marker = ''# <AUTOGEN_INIT>''"

definition end_marker :: string where
  "end_marker = ''# </AUTOGEN_INIT>''"

text \<open>
  One iteration of the loop over \<^verbatim>\<open>enumerate(lines)\<close> (source lines 102-113): five
  \<^verbatim>\<open>if\<close> statements in sequence, each reading the variables as the previous ones
  left them.
\<close>

definition scan_line :: "nat \<Rightarrow> string \<Rightarrow> region \<Rightarrow> region" where
  "scan_line lineno line r0 =
     (let r1 = (if \<not> explicit r0 \<and>
                   strip line \<in> set [[CHR 0x22, CHR 0x22, CHR 0x22], [CHR 0x27, CHR 0x27, CHR 0x27]]
                then r0\<lparr>startline := lineno + 1\<rparr> else r0);
          r2 = (if \<not> explicit r1 \<and> startswith (strip line) ''from __future__''
                then r1\<lparr>startline := lineno + 1\<rparr> else r1);
          r3 = (if \<not> explicit r2 \<and> startswith (strip line) ''#''
                then r2\<lparr>startline := lineno + 1\<rparr> else r2);
          r4 = (if startswith (strip line) begin_marker
                then r3\<lparr>init_indent := slice_to line (find line CHR ''#''),
                        explicit := True, startline := lineno + 1\<rparr>
                else r3);
          r5 = (if explicit r4 \<and> startswith (strip line) end_marker
                then r4\<lparr>endline := lineno\<rparr> else r4)
      in r5)"

fun scan_from :: "nat \<Rightarrow> string list \<Rightarrow> region \<Rightarrow> region" where
  "scan_from lineno [] r = r"
| "scan_from lineno (line # lines) r = scan_from (lineno + 1) lines (scan_line lineno line r)"

definition scan :: "string list \<Rightarrow> region" where
  "scan lines =
     scan_from 0 lines \<lparr>startline = 0, endline = length lines, explicit = False, init_indent = []\<rparr>"

text \<open>
  Source lines 96-123: from the lines of the file and the rendered block to the text that
  is written back. The \<^verbatim>\<open>assert startline <= endline\<close> is the only way to fail.
\<close>

definition new_text :: "string list \<Rightarrow> string \<Rightarrow> error + string" where
  "new_text lines initstr =
     (let r = scan lines;
          initstr' = indent initstr (init_indent r) @ [NL]
      in if \<not> startline r \<le> endline r then Inl AssertionError
         else Inr (rstrip (concat (take (startline r) lines @ [initstr'] @ drop (endline r) lines))))"

definition autogen_init_write :: "filesystem \<Rightarrow> path \<Rightarrow> string \<Rightarrow> error + filesystem" where
  "autogen_init_write fs modpath initstr =
     (let init_fpath = path_join modpath ''__init__.py''
      in if \<not> exists fs init_fpath then Inl AssertionError
         else (case open_read fs (Some init_fpath) of
                 Inl e \<Rightarrow> Inl e
               | Inr text \<Rightarrow>
                   (case new_text (readlines text) initstr of
                      Inl e \<Rightarrow> Inl e
                    | Inr t \<Rightarrow> Inr (open_write fs init_fpath t))))"

subsection \<open>\<^verbatim>\<open>textwrap.wrap\<close> of the Python standard library\<close>

text \<open>
  \<^verbatim>\<open>_make_fromimport_str\<close> calls \<^verbatim>\<open>textwrap.wrap(rawstr, break_long_words=False,
  width=79, initial_indent='', subsequent_indent=newline_prefix)\<close>; every other option
  has its default (\<^verbatim>\<open>expand_tabs\<close>, \<^verbatim>\<open>replace_whitespace\<close>, \<^verbatim>\<open>drop_whitespace\<close>,
  \<^verbatim>\<open>break_on_hyphens\<close> true, \<^verbatim>\<open>tabsize\<close> 8, no \<^verbatim>\<open>max_lines\<close>). The library is
  followed step by step: \<^verbatim>\<open>_munge_whitespace\<close>, \<^verbatim>\<open>_split\<close>, \<^verbatim>\<open>_wrap_chunks\<close> and
  \<^verbatim>\<open>_handle_long_word\<close>.
\<close>

abbreviation TAB :: char where
  "TAB \<equiv> CHR 0x09"

abbreviation CR :: char where
  "CR \<equiv> CHR 0x0D"

text \<open>\<^verbatim>\<open>text.expandtabs(8)\<close>: the column restarts after a line break.\<close>

fun expandtabs_from :: "nat \<Rightarrow> string \<Rightarrow> string" where
  "expandtabs_from col [] = []"
| "expandtabs_from col (c # cs) =
     (if c = TAB
      then replicate (8 - col mod 8) SP @ expandtabs_from (col + (8 - col mod 8)) cs
      else c # expandtabs_from (if c = NL \<or> c = CR then 0 else col + 1) cs)"

text \<open>The characters of \<^verbatim>\<open>textwrap._whitespace\<close>.\<close>

definition tw_whitespace :: "char \<Rightarrow> bool" where
  "tw_whitespace c = (c \<in> set [TAB, NL, CHR 0x0B, CHR 0x0C, CR, SP])"

definition munge_whitespace :: "string \<Rightarrow> string" where
  "munge_whitespace text = map (\<lambda>c. if tw_whitespace c then SP else c) (expandtabs_from 0 text)"

text \<open>
  \<^verbatim>\<open>_split\<close>: the chunks are the successive matches of \<^verbatim>\<open>wordsep_re\<close> (Python 3.5
  and later), which tile the text. The character classes of the pattern, on the code
  points below 256: \<^verbatim>\<open>\d\<close>, \<^verbatim>\<open>\w\<close>, \<^verbatim>\<open>letter = [^\d\W]\<close> and
  \<^verbatim>\<open>word_punct = [\w!"'&.,?]\<close>.
\<close>

definition is_digit :: "char \<Rightarrow> bool" where
  "is_digit c = (48 \<le> (of_char c :: nat) \<and> (of_char c :: nat) \<le> 57)"

definition is_word :: "char \<Rightarrow> bool" where
  "is_word c =
     (let n = (of_char c :: nat)
      in (48 \<le> n \<and> n \<le> 57) \<or> (65 \<le> n \<and> n \<le> 90) \<or> n = 95 \<or> (97 \<le> n \<and> n \<le> 122)
         \<or> n \<in> set [170, 178, 179, 181, 185, 186, 188, 189, 190]
         \<or> (192 \<le> n \<and> n \<le> 214) \<or> (216 \<le> n \<and> n \<le> 246) \<or> (248 \<le> n \<and> n \<le> 255))"

definition is_letter :: "char \<Rightarrow> bool" where
  "is_letter c = (is_word c \<and> \<not> is_digit c)"

definition is_word_punct :: "char \<Rightarrow> bool" where
  "is_word_punct c =
     (is_word c \<or> c \<in> set [CHR ''!'', CHR 0x22, CHR 0x27, CHR ''&'', CHR ''.'', CHR '','', CHR ''?''])"

definition is_hyphen :: "char \<Rightarrow> bool" where
  "is_hyphen c = (c = CHR ''-'')"

text \<open>
  The lookahead \<^verbatim>\<open>(?=-{2,}\w)\<close>: a run of at least two hyphens and then a word
  character. The same test decides the alternative \<^verbatim>\<open>-{2,}(?=\w)\<close>, which matches
  the whole run (after fewer hyphens the next character is a hyphen).
\<close>

definition emdash_ahead :: "string \<Rightarrow> bool" where
  "emdash_ahead rest =
     (2 \<le> length (takeWhile is_hyphen rest)
      \<and> dropWhile is_hyphen rest \<noteq> [] \<and> is_word (hd (dropWhile is_hyphen rest)))"

text \<open>
  The alternative for a hyphenated word, at a hyphen: \<^verbatim>\<open>-\<close>, the lookbehinds
  \<^verbatim>\<open>(?<=letter{2}-)\<close> or \<^verbatim>\<open>(?<=letter-letter-)\<close>, and the lookahead
  \<^verbatim>\<open>(?=letter-?letter)\<close>. \<open>seen\<close> holds the characters before the hyphen, the last
  one first.
\<close>

definition hyphen_break :: "string \<Rightarrow> string \<Rightarrow> bool" where
  "hyphen_break seen rest =
     (case rest of
        [] \<Rightarrow> False
      | c # r1 \<Rightarrow>
          is_hyphen c
          \<and> ((case seen of b1 # b2 # _ \<Rightarrow> is_letter b1 \<and> is_letter b2 | _ \<Rightarrow> False)
             \<or> (case seen of
                   b1 # b2 # b3 # _ \<Rightarrow> is_letter b1 \<and> is_hyphen b2 \<and> is_letter b3
                 | _ \<Rightarrow> False))
          \<and> (case r1 of
               [] \<Rightarrow> False
             | x # r2 \<Rightarrow>
                 is_letter x
                 \<and> ((case r2 of y # z # _ \<Rightarrow> is_hyphen y \<and> is_letter z | _ \<Rightarrow> False)
                    \<or> (case r2 of y # _ \<Rightarrow> is_letter y | [] \<Rightarrow> False))))"

text \<open>
  The third alternative, \<^verbatim>\<open>nowhitespace+?\<close> followed by one of three endings, after
  its first character: the lazy quantifier takes the fewest characters after which an
  ending matches, and the endings are tried in the order of the pattern (the hyphen of a
  hyphenated word, which is consumed; whitespace or the end of the text; an em-dash
  ahead). The result is the rest of the match and the text after it.
\<close>

fun word_rest :: "string \<Rightarrow> string \<Rightarrow> string \<times> string" where
  "word_rest seen [] = ([], [])"
| "word_rest seen (c # cs) =
     (if hyphen_break seen (c # cs) then ([c], cs)
      else if tw_whitespace c then ([], c # cs)
      else if seen \<noteq> [] \<and> is_word_punct (hd seen) \<and> emdash_ahead (c # cs) then ([], c # cs)
      else (case word_rest (c # seen) cs of (w, rest) \<Rightarrow> (c # w, rest)))"

lemma word_rest_length: "length (snd (word_rest seen s)) \<le> length s"
proof (induction s arbitrary: seen)
  case Nil
  show ?case by simp
next
  case (Cons c cs)
  obtain w r where wr: "word_rest (c # seen) cs = (w, r)"
    by (cases "word_rest (c # seen) cs")
  with Cons [of "c # seen"] have "length r \<le> length cs" by simp
  with wr show ?case by simp
qed

text \<open>
  The matches from a position on: whitespace (\<^verbatim>\<open>whitespace+\<close>), an em-dash between
  words (\<^verbatim>\<open>(?<=word_punct)-{2,}(?=\w)\<close>), or a word.
\<close>

function split_from :: "string \<Rightarrow> string \<Rightarrow> string list" where
  "split_from seen [] = []"
| "split_from seen (c # cs) =
     (if tw_whitespace c then
        takeWhile tw_whitespace (c # cs)
        # split_from (rev (takeWhile tw_whitespace (c # cs)) @ seen)
            (dropWhile tw_whitespace (c # cs))
      else if seen \<noteq> [] \<and> is_word_punct (hd seen) \<and> emdash_ahead (c # cs) then
        takeWhile is_hyphen (c # cs)
        # split_from (rev (takeWhile is_hyphen (c # cs)) @ seen) (dropWhile is_hyphen (c # cs))
      else (case word_rest (c # seen) cs of
              (w, rest) \<Rightarrow> (c # w) # split_from (rev (c # w) @ seen) rest))"
  by pat_completeness auto
termination
  apply (relation "measure (\<lambda>(seen, s). length s)")
     apply simp
    apply (simp add: le_imp_less_Suc length_dropWhile_le)
   apply (subgoal_tac "is_hyphen c")
    apply (simp add: le_imp_less_Suc length_dropWhile_le)
   apply (auto simp: emdash_ahead_def split: if_splits)[1]
  apply (metis word_rest_length snd_conv in_measure case_prod_conv le_imp_less_Suc length_Cons)
  done

declare split_from.simps [simp del]

definition split_chunks :: "string \<Rightarrow> string list" where
  "split_chunks text = split_from [] text"


text \<open>
  The inner loop of \<^verbatim>\<open>_wrap_chunks\<close>: chunks move to the current line while they fit.
  (The library reverses the chunk list and pops from its end; the model takes them from
  the front.)
\<close>

fun fill_line :: "int \<Rightarrow> string list \<Rightarrow> int \<Rightarrow> string list \<Rightarrow> string list \<times> string list" where
  "fill_line width cur_line cur_len [] = (cur_line, [])"
| "fill_line width cur_line cur_len (c # chunks) =
     (if cur_len + int (length c) \<le> width
      then fill_line width (cur_line @ [c]) (cur_len + int (length c)) chunks
      else (cur_line, c # chunks))"

text \<open>
  One iteration of the outer loop of \<^verbatim>\<open>_wrap_chunks\<close>, for a non-empty chunk list: the
  indentation of the line, the chunks of the line, and the chunks left. \<open>started\<close> says
  that \<^verbatim>\<open>lines\<close> is not empty. With \<^verbatim>\<open>break_long_words=False\<close>,
  \<^verbatim>\<open>_handle_long_word\<close> moves the next chunk to the line only if the line is empty.
\<close>

definition wrap_line :: "nat \<Rightarrow> string \<Rightarrow> string \<Rightarrow> bool \<Rightarrow> string list
    \<Rightarrow> string \<times> string list \<times> string list" where
  "wrap_line width initial_indent subsequent_indent started chunks =
     (let ind = (if started then subsequent_indent else initial_indent);
          w = int width - int (length ind);
          chunks1 = (if strip (hd chunks) = [] \<and> started then tl chunks else chunks);
          (cur_line, chunks2) = fill_line w [] 0 chunks1;
          (cur_line2, chunks3) =
            (if chunks2 \<noteq> [] \<and> w < int (length (hd chunks2)) \<and> cur_line = []
             then ([hd chunks2], tl chunks2) else (cur_line, chunks2));
          cur_line3 = (if cur_line2 \<noteq> [] \<and> strip (last cur_line2) = []
                       then butlast cur_line2 else cur_line2)
      in (ind, cur_line3, chunks3))"

lemma fill_line_length: "length (snd (fill_line w cl n chunks)) \<le> length chunks"
  by (induction chunks arbitrary: cl n) (auto intro: le_SucI)

lemma fill_line_split:
  "\<exists>pre. fill_line w cl n chunks = (cl @ pre, drop (length pre) chunks)
         \<and> pre = take (length pre) chunks
         \<and> (pre = [] \<or> n + int (length (concat pre)) \<le> w)
         \<and> (drop (length pre) chunks = [] \<or>
            w < n + int (length (concat pre)) + int (length (hd (drop (length pre) chunks))))"
proof (induction chunks arbitrary: cl n)
  case Nil
  show ?case by simp
next
  case (Cons c cs)
  show ?case
  proof (cases "n + int (length c) \<le> w")
    case True
    from Cons [of "cl @ [c]" "n + int (length c)"] obtain pre where
      p: "fill_line w (cl @ [c]) (n + int (length c)) cs = ((cl @ [c]) @ pre, drop (length pre) cs)"
         "pre = take (length pre) cs"
         "pre = [] \<or> n + int (length c) + int (length (concat pre)) \<le> w"
         "drop (length pre) cs = [] \<or>
            w < n + int (length c) + int (length (concat pre)) + int (length (hd (drop (length pre) cs)))"
      by blast
    show ?thesis
    proof (intro exI [of _ "c # pre"] conjI)
      show "fill_line w cl n (c # cs) = (cl @ c # pre, drop (length (c # pre)) (c # cs))"
        using True p(1) by simp
      show "c # pre = take (length (c # pre)) (c # cs)"
        using p(2) by simp
      show "c # pre = [] \<or> n + int (length (concat (c # pre))) \<le> w"
        using True p(3) by auto
      show "drop (length (c # pre)) (c # cs) = [] \<or>
          w < n + int (length (concat (c # pre)))
              + int (length (hd (drop (length (c # pre)) (c # cs))))"
        using p(4) by auto
    qed
  next
    case False
    then show ?thesis by (intro exI [of _ "[]"]) simp
  qed
qed

lemma fill_line_stuck:
  assumes "fill_line w [] n chunks = ([], rest)"
  shows "rest = chunks"
proof -
  from fill_line_split [of w "[]" n chunks] obtain pre where
    "fill_line w [] n chunks = ([] @ pre, drop (length pre) chunks)" by blast
  then have "fill_line w [] n chunks = (pre, drop (length pre) chunks)" by simp
  then have "([], rest) = (pre, drop (length pre) chunks)" unfolding assms .
  then have "pre = []" and "rest = drop (length pre) chunks" by blast+
  then show ?thesis by simp
qed

lemma fill_line_fits:
  assumes "fill_line w [] 0 chunks = ([], c # rest)"
  shows "w < int (length c)"
proof -
  from fill_line_split [of w "[]" 0 chunks] obtain pre where
    p: "fill_line w [] 0 chunks = ([] @ pre, drop (length pre) chunks)"
    "drop (length pre) chunks = [] \<or>
       w < 0 + int (length (concat pre)) + int (length (hd (drop (length pre) chunks)))"
    by blast
  from p(1) have "fill_line w [] 0 chunks = (pre, drop (length pre) chunks)" by simp
  then have "([], c # rest) = (pre, drop (length pre) chunks)" unfolding assms .
  then have e: "pre = []" and d: "drop (length pre) chunks = c # rest" by simp_all
  from p(2) show ?thesis unfolding d unfolding e by simp
qed

lemma wrap_line_shorter:
  assumes "chunks \<noteq> []"
  shows "length (snd (snd (wrap_line width ii si started chunks))) < length chunks"
proof -
  define ind where "ind = (if started then si else ii)"
  define w where "w = int width - int (length ind)"
  define chunks1 where "chunks1 = (if strip (hd chunks) = [] \<and> started then tl chunks else chunks)"
  obtain cur_line chunks2 where f: "fill_line w [] 0 chunks1 = (cur_line, chunks2)"
    by (cases "fill_line w [] 0 chunks1")
  define chunks3 where "chunks3 =
    (if chunks2 \<noteq> [] \<and> w < int (length (hd chunks2)) \<and> cur_line = [] then tl chunks2 else chunks2)"
  have res: "snd (snd (wrap_line width ii si started chunks)) = chunks3"
    using f by (simp add: wrap_line_def Let_def ind_def w_def chunks1_def chunks3_def)
  have l1: "length chunks1 \<le> length chunks"
    by (simp add: chunks1_def)
  have l2: "length chunks2 \<le> length chunks1"
    using fill_line_length [of w "[]" 0 chunks1] f by simp
  have l3: "length chunks3 \<le> length chunks2"
    by (simp add: chunks3_def)
  show ?thesis
  proof (cases "chunks1 = chunks")
    case False
    then have "length chunks1 < length chunks"
      using assms by (auto simp: chunks1_def split: if_splits)
    with l2 l3 res show ?thesis by simp
  next
    case same: True
    show ?thesis
    proof (cases "cur_line = []")
      case True
      with f have c2: "chunks2 = chunks1" by (auto dest: fill_line_stuck)
      with same assms obtain c cs where cs: "chunks2 = c # cs" by (cases chunks2) auto
      with f True c2 have "w < int (length c)" by (auto dest: fill_line_fits)
      with cs True have "chunks3 = cs" by (simp add: chunks3_def)
      with cs c2 same res show ?thesis by simp
    next
      case False
      have "length chunks2 < length chunks1"
      proof (rule ccontr)
        assume "\<not> length chunks2 < length chunks1"
        with l2 have eq: "length chunks2 = length chunks1" by simp
        obtain c cs where cs: "chunks1 = c # cs" using same assms by (cases chunks1) auto
        show False
        proof (cases "0 + int (length c) \<le> w")
          case True
          with f cs have "fill_line w [c] (int (length c)) cs = (cur_line, chunks2)" by simp
          then have "length chunks2 \<le> length cs"
            using fill_line_length [of w "[c]" "int (length c)" cs] by simp
          with eq cs show False by simp
        next
          case no: False
          with f cs have "cur_line = []" by simp
          with False show False by simp
        qed
      qed
      with l1 l3 res show ?thesis by simp
    qed
  qed
qed

text \<open>
  \<^verbatim>\<open>_wrap_chunks\<close>: the outer loop. A line is appended only when it has a chunk
  (\<^verbatim>\<open>if cur_line:\<close>).
\<close>

function wrap_chunks :: "nat \<Rightarrow> string \<Rightarrow> string \<Rightarrow> string list \<Rightarrow> string list \<Rightarrow> string list" where
  "wrap_chunks width ii si lines chunks =
     (if chunks = [] then lines
      else (case wrap_line width ii si (lines \<noteq> []) chunks of
              (ind, cur_line, rest) \<Rightarrow>
                wrap_chunks width ii si
                  (if cur_line \<noteq> [] then lines @ [ind @ concat cur_line] else lines) rest))"
  by pat_completeness auto
termination
  apply (relation "measure (\<lambda>(width, ii, si, lines, chunks). length chunks)")
   apply simp
  apply simp
  apply (metis wrap_line_shorter snd_conv)
  done

declare wrap_chunks.simps [simp del]

definition textwrap_wrap :: "string \<Rightarrow> nat \<Rightarrow> string \<Rightarrow> string \<Rightarrow> string list" where
  "textwrap_wrap text width initial_indent subsequent_indent =
     wrap_chunks width initial_indent subsequent_indent [] (split_chunks (munge_whitespace text))"

subsection \<open>The renderer\<close>

definition make_module_header :: string where
  "make_module_header =
     join [NL] [''# flake8:'' @ '' noqa'',
       ''from __future__ import absolute_import, division, print_function, unicode_literals'']"

text \<open>
  \<^verbatim>\<open>_make_imports_str\<close>: the format \<^verbatim>\<open>'from {rootmodname} import %s'\<close> is filled with
  the root name, and then with every name by the \<^verbatim>\<open>%\<close> operator. \<open>NotModelled\<close> marks
  the one input on which this embedding stops following Python: a root module name with
  a percent sign, which the \<^verbatim>\<open>%\<close> operator reads as a conversion of its own. No theorem
  below is about this input.
\<close>

datatype 'a outcome = NotModelled | Result 'a

definition make_imports_str :: "string list \<Rightarrow> string \<Rightarrow> string outcome" where
  "make_imports_str imports rootmodname =
     (if imports \<noteq> [] \<and> CHR ''%'' \<in> set rootmodname then NotModelled
      else Result (join [NL] (map (\<lambda>name. ''from '' @ rootmodname @ '' import '' @ name) imports)))"

definition pack_fromimport :: "string \<Rightarrow> string \<times> string list \<Rightarrow> string" where
  "pack_fromimport rootmodname tup =
     (let name = fst tup; fromlist = snd tup;
          from_module_str = ''from '' @ rootmodname @ ''.'' @ name @ '' import ('';
          newline_prefix = replicate (length from_module_str) SP;
          rawstr = (if length fromlist > 0 then from_module_str @ join '', '' fromlist @ '',)''
                    else [])
      in join [NL] (textwrap_wrap rawstr 79 [] newline_prefix))"

definition make_fromimport_str :: "(string \<times> string list) list \<Rightarrow> string \<Rightarrow> string" where
  "make_fromimport_str from_imports rootmodname =
     (let rootmodname' = (if rootmodname = ''.'' then [] else rootmodname)
      in join [NL] (map (pack_fromimport rootmodname') from_imports))"

definition initstr :: "string \<Rightarrow> string list \<Rightarrow> (string \<times> string list) list \<Rightarrow> bool
    \<Rightarrow> string outcome" where
  "initstr modname imports from_imports withheader =
     (let header = (if withheader then make_module_header else [])
      in (case make_imports_str imports modname of
            NotModelled \<Rightarrow> NotModelled
          | Result import_str \<Rightarrow>
              (let fromimport_str = make_fromimport_str from_imports modname
               in Result (join [NL]
                    (filter (\<lambda>s. length s > 0) [header, import_str, fromimport_str])))))"

subsection \<open>The plan builder: \<^verbatim>\<open>_static_parse_imports\<close>\<close>

text \<open>
  The functions of \<^verbatim>\<open>xdoctest.static_analysis\<close> that the source calls.
  \<open>modname_to_modpath\<close> returns \<^verbatim>\<open>None\<close> for a name it cannot resolve; \<open>calldefs\<close> is
  \<^verbatim>\<open>TopLevelVisitor.parse(source).calldefs.keys()\<close>, the names in the order of the
  dictionary, or the exception of the parser.
\<close>

record static_analysis =
  modname_to_modpath :: "string \<Rightarrow> path option"
  modpath_to_modname :: "path \<Rightarrow> string"
  package_modpaths :: "path \<Rightarrow> path list"
  calldefs :: "string \<Rightarrow> error + string list"

text \<open>
  Source lines 62-70, the enumeration branch: the loop over
  \<^verbatim>\<open>package_modpaths(modpath)\<close> that skips a relative name starting with an
  underscore. It returns \<^verbatim>\<open>imports\<close> and \<^verbatim>\<open>import_paths\<close>.
\<close>

fun enumerate_submodules :: "static_analysis \<Rightarrow> string \<Rightarrow> path list
    \<Rightarrow> string list \<times> path option list" where
  "enumerate_submodules sa modname [] = ([], [])"
| "enumerate_submodules sa modname (sub_modpath # rest) =
     (let sub_modname = modpath_to_modname sa sub_modpath;
          rel_modname = drop (length modname + 1) sub_modname;
          (imports, import_paths) = enumerate_submodules sa modname rest
      in if startswith rel_modname ''_'' then (imports, import_paths)
         else (rel_modname # imports, Some sub_modpath # import_paths))"

text \<open>
  Source lines 72-82: the loop over \<^verbatim>\<open>zip(import_paths, imports)\<close>. Every file is
  opened and parsed, and the names with a dot or a leading underscore are dropped. The
  first exception ends the loop.
\<close>

fun parse_submodules :: "static_analysis \<Rightarrow> filesystem \<Rightarrow> (path option \<times> string) list
    \<Rightarrow> error + (string \<times> string list) list" where
  "parse_submodules sa fs [] = Inr []"
| "parse_submodules sa fs ((sub_modpath, rel_modname) # rest) =
     (case open_read fs sub_modpath of
        Inl e \<Rightarrow> Inl e
      | Inr source \<Rightarrow>
          (case calldefs sa source of
             Inl e \<Rightarrow> Inl e
           | Inr names \<Rightarrow>
               (let valid_callnames =
                      filter (\<lambda>callname. \<not> (CHR ''.'' \<in> set callname \<or> startswith callname ''_''))
                        names
                in (case parse_submodules sa fs rest of
                      Inl e \<Rightarrow> Inl e
                    | Inr from_imports \<Rightarrow> Inr ((rel_modname, valid_callnames) # from_imports)))))"

definition static_parse_imports :: "static_analysis \<Rightarrow> filesystem \<Rightarrow> path \<Rightarrow> string list option
    \<Rightarrow> error + string \<times> string list \<times> (string \<times> string list) list" where
  "static_parse_imports sa fs modpath imports =
     (let modname = modpath_to_modname sa modpath;
          (imports', import_paths) =
            (case imports of
               Some given \<Rightarrow> (given, map (\<lambda>m. modname_to_modpath sa (modname @ ''.'' @ m)) given)
             | None \<Rightarrow> enumerate_submodules sa modname (package_modpaths sa modpath))
      in (case parse_submodules sa fs (zip import_paths imports') of
            Inl e \<Rightarrow> Inl e
          | Inr from_imports \<Rightarrow> Inr (modname, imports', from_imports)))"

subsection \<open>The orchestration: \<^verbatim>\<open>autogen_init\<close>\<close>

text \<open>
  What a run leaves behind: the text it printed (\<^verbatim>\<open>dry=True\<close>) or the file system
  after the write. The diagnostic prints of \<^verbatim>\<open>_autogen_init_write\<close> are not modelled.
\<close>

datatype effect = Printed string | Written filesystem

definition autogen_init :: "static_analysis \<Rightarrow> filesystem \<Rightarrow> string \<Rightarrow> string list option \<Rightarrow> bool
    \<Rightarrow> (error + effect) outcome" where
  "autogen_init sa fs modpath_or_name imports dry =
     (case (if exists fs modpath_or_name then Inr modpath_or_name
            else (case modname_to_modpath sa modpath_or_name of
                    None \<Rightarrow> Inl (ValueError (''Invalid module '' @ modpath_or_name))
                  | Some p \<Rightarrow> Inr p)) of
        Inl e \<Rightarrow> Result (Inl e)
      | Inr modpath \<Rightarrow>
          (case static_parse_imports sa fs modpath imports of
             Inl e \<Rightarrow> Result (Inl e)
           | Inr (modname, imports', from_imports) \<Rightarrow>
               (case initstr modname imports' from_imports False of
                  NotModelled \<Rightarrow> NotModelled
                | Result block \<Rightarrow>
                    if dry then Result (Inr (Printed block))
                    else (case autogen_init_write fs modpath block of
                            Inl e \<Rightarrow> Result (Inl e)
                          | Inr fs' \<Rightarrow> Result (Inr (Written fs'))))))"

subsection \<open>Notions used to state the properties\<close>

text \<open>The two marker tests of the scan, on a line.\<close>

definition is_begin :: "string \<Rightarrow> bool" where
  "is_begin line = startswith (strip line) begin_marker"

definition is_end :: "string \<Rightarrow> bool" where
  "is_end line = startswith (strip line) end_marker"

text \<open>The variables of the scan after its first \<open>k\<close> iterations.\<close>

definition scan_prefix :: "string list \<Rightarrow> nat \<Rightarrow> region" where
  "scan_prefix lines k =
     scan_from 0 (take k lines)
       \<lparr>startline = 0, endline = length lines, explicit = False, init_indent = []\<rparr>"

text \<open>The index of the last element with a property, if there is one.\<close>

fun last_index :: "('a \<Rightarrow> bool) \<Rightarrow> 'a list \<Rightarrow> nat option" where
  "last_index P [] = None"
| "last_index P (x # xs) =
     (case last_index P xs of
        Some j \<Rightarrow> Some (j + 1)
      | None \<Rightarrow> if P x then Some 0 else None)"

text \<open>
  The test of source line 79, negated, and the relative name of source line 66 with
  the test of line 67.
\<close>

definition public_callname :: "string \<Rightarrow> bool" where
  "public_callname callname = (\<not> (CHR ''.'' \<in> set callname \<or> startswith callname ''_''))"

definition rel_modname :: "static_analysis \<Rightarrow> string \<Rightarrow> path \<Rightarrow> string" where
  "rel_modname sa modname sub_modpath = drop (length modname + 1) (modpath_to_modname sa sub_modpath)"

definition private_modpath :: "static_analysis \<Rightarrow> string \<Rightarrow> path \<Rightarrow> bool" where
  "private_modpath sa modname sub_modpath = startswith (rel_modname sa modname sub_modpath) ''_''"

text \<open>
  For the wrapped from-import: a chunk is blank when \<^verbatim>\<open>chunk.strip() == ''\<close>; a line of
  the wrapped text is an indentation followed by chunks; such a line is in order when it
  has a chunk and is no longer than the width, unless it holds one chunk alone that does
  not fit after the indentation. \<open>line_indents\<close> are the indentations of \<open>n\<close> lines: the
  initial one for the first line, the subsequent one for every other line.
  \<open>from_module_str\<close> and \<open>rawstr\<close> are the variables of \<^verbatim>\<open>_pack_fromimport\<close>,
  \<open>fromimport_root\<close> is the root name as \<^verbatim>\<open>_make_fromimport_str\<close> uses it, and
  \<open>fromimport_lines\<close> are the lines that \<^verbatim>\<open>_pack_fromimport\<close> joins.
\<close>

definition blank :: "string \<Rightarrow> bool" where
  "blank c = (strip c = [])"

definition render_group :: "string \<times> string list \<Rightarrow> string" where
  "render_group g = fst g @ concat (snd g)"

definition group_ok :: "nat \<Rightarrow> string \<times> string list \<Rightarrow> bool" where
  "group_ok width g =
     (snd g \<noteq> []
      \<and> (length (render_group g) \<le> width
         \<or> (length (snd g) = 1 \<and> width < length (fst g) + length (hd (snd g)))))"

definition line_indents :: "string \<Rightarrow> string \<Rightarrow> nat \<Rightarrow> string list" where
  "line_indents ii si n = (case n of 0 \<Rightarrow> [] | Suc k \<Rightarrow> ii # replicate k si)"

definition from_module_str :: "string \<Rightarrow> string \<Rightarrow> string" where
  "from_module_str rootmodname name = ''from '' @ rootmodname @ ''.'' @ name @ '' import (''"

definition rawstr :: "string \<Rightarrow> string \<Rightarrow> string list \<Rightarrow> string" where
  "rawstr rootmodname name fromlist =
     (if length fromlist > 0 then from_module_str rootmodname name @ join '', '' fromlist @ '',)''
      else [])"

definition fromimport_root :: "string \<Rightarrow> string" where
  "fromimport_root modname = (if modname = ''.'' then [] else modname)"

definition fromimport_lines :: "string \<Rightarrow> string \<times> string list \<Rightarrow> string list" where
  "fromimport_lines rootmodname entry =
     textwrap_wrap (rawstr rootmodname (fst entry) (snd entry)) 79 []
       (replicate (length (from_module_str rootmodname (fst entry))) SP)"

text \<open>
  Where a list of chunks is cut: between two chunks, the first ends or the second begins
  with whitespace or a hyphen.
\<close>

fun cut_ok :: "string list \<Rightarrow> bool" where
  "cut_ok (u # v # rest) =
     ((tw_whitespace (last u) \<or> tw_whitespace (hd v) \<or> is_hyphen (last u) \<or> is_hyphen (hd v))
      \<and> cut_ok (v # rest))"
| "cut_ok [u] = True"
| "cut_ok [] = True"

text \<open>The lines of a text: \<^verbatim>\<open>text.split('\n')\<close>.\<close>

fun split_lines :: "string \<Rightarrow> string list" where
  "split_lines [] = [[]]"
| "split_lines (c # cs) =
     (if c = NL then [] # split_lines cs
      else (case split_lines cs of
              [] \<Rightarrow> [[c]]
            | l # ls \<Rightarrow> (c # l) # ls))"

text \<open>The shape of the lines that \<open>readlines\<close> returns.\<close>

fun valid_lines :: "string list \<Rightarrow> bool" where
  "valid_lines [] = True"
| "valid_lines [l] = (l \<noteq> [] \<and> NL \<notin> set (butlast l))"
| "valid_lines (l # l' # ls) = ((\<exists>u. l = u @ [NL] \<and> NL \<notin> set u) \<and> valid_lines (l' # ls))"

text \<open>
  The paths that \<^verbatim>\<open>_static_parse_imports\<close> opens: the variable \<^verbatim>\<open>import_paths\<close> of the
  source.
\<close>

definition import_paths :: "static_analysis \<Rightarrow> path \<Rightarrow> string list option \<Rightarrow> path option list" where
  "import_paths sa modpath imports =
     (case imports of
        Some given \<Rightarrow> map (\<lambda>m. modname_to_modpath sa (modpath_to_modname sa modpath @ ''.'' @ m)) given
      | None \<Rightarrow> snd (enumerate_submodules sa (modpath_to_modname sa modpath)
                       (package_modpaths sa modpath)))"

subsection \<open>The packages and files of the scenarios\<close>

text \<open>
  Scenario A: the package \<^verbatim>\<open>pkg\<close> with the submodules \<^verbatim>\<open>a.py\<close> (defining \<^verbatim>\<open>foo\<close> and
  \<^verbatim>\<open>_bar\<close>), \<^verbatim>\<open>_hidden.py\<close> (any content, or none) and \<^verbatim>\<open>b.py\<close> (no callable), and
  an init file with the text \<open>init\<close>.
\<close>

definition a_source :: string where
  "a_source = ''def foo():'' @ [NL] @ ''    pass'' @ [NL] @ ''def _bar():'' @ [NL] @ ''    pass'' @ [NL]"

definition b_source :: string where
  "b_source = ''X = 1'' @ [NL]"

definition scenario_A_sa :: static_analysis where
  "scenario_A_sa =
     \<lparr>modname_to_modpath =
        (\<lambda>n. if n = ''pkg'' then Some ''pkg''
              else if n = ''pkg.a'' then Some ''pkg/a.py''
              else if n = ''pkg.b'' then Some ''pkg/b.py''
              else if n = ''pkg._hidden'' then Some ''pkg/_hidden.py''
              else None),
      modpath_to_modname =
        (\<lambda>p. if p = ''pkg/a.py'' then ''pkg.a''
              else if p = ''pkg/b.py'' then ''pkg.b''
              else if p = ''pkg/_hidden.py'' then ''pkg._hidden''
              else ''pkg''),
      package_modpaths =
        (\<lambda>p. if p = ''pkg'' then [''pkg/a.py'', ''pkg/_hidden.py'', ''pkg/b.py''] else []),
      calldefs = (\<lambda>source. if source = a_source then Inr [''foo'', ''_bar''] else Inr [])\<rparr>"

definition scenario_A_fs :: "string option \<Rightarrow> string \<Rightarrow> filesystem" where
  "scenario_A_fs hidden init =
     \<lparr>files =
        (\<lambda>p. if p = ''pkg/a.py'' then Some a_source
              else if p = ''pkg/b.py'' then Some b_source
              else if p = ''pkg/_hidden.py'' then hidden
              else if p = ''pkg/__init__.py'' then Some init
              else None),
      dirs = (\<lambda>p. p = ''pkg'')\<rparr>"

definition scenario_A_block :: string where
  "scenario_A_block =
     ''from pkg import a'' @ [NL] @ ''from pkg import b'' @ [NL] @ ''from pkg.a import (foo,)''"

text \<open>
  The block for the explicit submodule list \<^verbatim>\<open>['_hidden', 'a']\<close>, when \<^verbatim>\<open>_hidden.py\<close> has
  the text of \<^verbatim>\<open>a.py\<close>.
\<close>

definition explicit_block :: string where
  "explicit_block =
     ''from pkg import _hidden'' @ [NL] @ ''from pkg import a'' @ [NL] @
     ''from pkg._hidden import (foo,)'' @ [NL] @ ''from pkg.a import (foo,)''"

text \<open>
  An init file with two marked regions, the second one indented, and an init file with
  one marked region and a line after it.
\<close>

definition marker_lines :: "string list" where
  "marker_lines =
     [''# <AUTOGEN_INIT>'' @ [NL], ''old_a'' @ [NL], ''# </AUTOGEN_INIT>'' @ [NL], ''keep'' @ [NL],
      ''  # <AUTOGEN_INIT>'' @ [NL], ''old_b'' @ [NL], ''  # </AUTOGEN_INIT>'' @ [NL]]"

definition marked_file :: string where
  "marked_file =
     ''# <AUTOGEN_INIT>'' @ [NL] @ ''old'' @ [NL] @ ''# </AUTOGEN_INIT>'' @ [NL] @
     ''footer = 1'' @ [NL]"

definition marked_file_merged :: string where
  "marked_file_merged =
     ''# <AUTOGEN_INIT>'' @ [NL] @ ''x'' @ [NL] @ ''# </AUTOGEN_INIT>'' @ [NL] @ ''footer = 1''"

text \<open>An init file of two lines that end with a carriage return and a newline.\<close>

definition crlf_file :: string where
  "crlf_file = ''# keep'' @ [CR, NL] @ ''x = 1'' @ [CR, NL]"

text \<open>The marked file after a run on the package of scenario A.\<close>

definition marked_file_generated :: string where
  "marked_file_generated =
     ''# <AUTOGEN_INIT>'' @ [NL] @ scenario_A_block @ [NL] @ [NL] @ ''# </AUTOGEN_INIT>'' @ [NL] @
     ''footer = 1''"

text \<open>A submodule with a name of 60 characters, for a from-import with a long prefix.\<close>

definition long_name :: string where
  "long_name = ''n23456789012345678901234567890123456789012345678901234567890''"

text \<open>Scenario C: an init file of four lines, without markers.\<close>

definition scenario_C_lines :: "string list" where
  "scenario_C_lines =
     [[CHR 0x22, CHR 0x22, CHR 0x22] @ ''doc'' @ [CHR 0x22, CHR 0x22, CHR 0x22, NL],
      ''from __future__ import x'' @ [NL],
      ''# comment'' @ [NL],
      ''old_code_here'' @ [NL]]"

section \<open>Properties\<close>

subsection \<open>Facts about the string operations\<close>

lemma replace_nl_id: "replace_nl [NL] s = s"
  by (induction s) (simp_all add: replace_nl_def)

lemma indent_empty: "indent s [] = s"
  by (simp add: indent_def replace_nl_id)

lemma un_no_CR: "CR \<notin> set (universal_newlines t)"
  by (induction t rule: universal_newlines.induct) (auto split: list.splits)

lemma un_id: "CR \<notin> set t \<Longrightarrow> universal_newlines t = t"
  by (induction t) auto

lemma concat_readlines: "concat (readlines t) = t"
  by (induction t) (auto split: list.splits)

subsection \<open>Scenario C: boundaries inferred from the leading lines\<close>

text \<open>
  C6. The init file of scenario C consists of the four lines \<^verbatim>\<open>"""doc"""\<close>,
  \<^verbatim>\<open>from __future__ import x\<close>, \<^verbatim>\<open># comment\<close> and \<^verbatim>\<open>old_code_here\<close>, with no markers.
  Reading it gives these four lines; the scan ends with \<open>startline = 3\<close>,
  \<open>endline = 4\<close> (the number of lines), no explicit mode and an empty indentation; and
  for every rendered block the text written back is the first three lines followed by
  the block, so everything from line 3 onward is replaced.
\<close>

theorem scenario_C_boundaries:
  "readlines (universal_newlines (concat scenario_C_lines)) = scenario_C_lines
   \<and> scan scenario_C_lines = \<lparr>startline = 3, endline = 4, explicit = False, init_indent = []\<rparr>
   \<and> endline (scan scenario_C_lines) = length scenario_C_lines
   \<and> new_text scenario_C_lines block =
       Inr (rstrip (concat (take 3 scenario_C_lines) @ block @ [NL]))"
proof -
  have lines: "readlines (universal_newlines (concat scenario_C_lines)) = scenario_C_lines"
    by (simp add: scenario_C_lines_def)
  have sc: "scan scenario_C_lines =
      \<lparr>startline = 3, endline = 4, explicit = False, init_indent = []\<rparr>"
    by (simp add: scenario_C_lines_def scan_def scan_line_def strip_def lstrip_def rstrip_def
        isspace_def begin_marker_def end_marker_def Let_def)
  have len: "length scenario_C_lines = 4"
    by (simp add: scenario_C_lines_def)
  have "new_text scenario_C_lines block =
      Inr (rstrip (concat (take 3 scenario_C_lines) @ block @ [NL]))"
    unfolding new_text_def sc by (simp add: indent_empty len)
  with lines sc len show ?thesis by simp
qed

subsection \<open>Scenario A: the plan and the rendered block\<close>

lemma scenario_A_plan:
  "static_parse_imports scenario_A_sa (scenario_A_fs hidden init) ''pkg'' None =
     Inr (''pkg'', [''a'', ''b''], [(''a'', [''foo'']), (''b'', [])])"
  by (simp add: static_parse_imports_def scenario_A_sa_def scenario_A_fs_def open_read_def
      a_source_def b_source_def)

lemma scenario_A_initstr:
  "initstr ''pkg'' [''a'', ''b''] [(''a'', [''foo'']), (''b'', [])] False =
     Result (scenario_A_block @ [NL])"
  by code_simp

text \<open>
  C1, as the code has it. In scenario A, whatever \<^verbatim>\<open>_hidden.py\<close> and the init file
  hold, the plan built without an explicit submodule list is
  \<^verbatim>\<open>[("a", ["foo"]), ("b", [])]\<close>. Rendered with the root name \<^verbatim>\<open>pkg\<close> and no header,
  there is one line \<^verbatim>\<open>from pkg import <name>\<close> per entry, the from-import of \<^verbatim>\<open>a\<close> is
  \<^verbatim>\<open>from pkg.a import (foo,)\<close> (parenthesised, with a trailing comma), and the block,
  which a dry run prints, is these three lines followed by whitespace only.
\<close>

theorem scenario_A_rendering:
  "static_parse_imports scenario_A_sa (scenario_A_fs hidden init) ''pkg'' None =
     Inr (''pkg'', [''a'', ''b''], [(''a'', [''foo'']), (''b'', [])])
   \<and> make_imports_str [''a'', ''b''] ''pkg'' =
       Result (''from pkg import a'' @ [NL] @ ''from pkg import b'')
   \<and> pack_fromimport ''pkg'' (''a'', [''foo'']) = ''from pkg.a import (foo,)''
   \<and> (\<exists>ws. list_all isspace ws
         \<and> initstr ''pkg'' [''a'', ''b''] [(''a'', [''foo'']), (''b'', [])] False =
             Result (scenario_A_block @ ws)
         \<and> autogen_init scenario_A_sa (scenario_A_fs hidden init) ''pkg'' None True =
             Result (Inr (Printed (scenario_A_block @ ws))))"
proof (intro conjI)
  show "static_parse_imports scenario_A_sa (scenario_A_fs hidden init) ''pkg'' None =
     Inr (''pkg'', [''a'', ''b''], [(''a'', [''foo'']), (''b'', [])])"
    by (rule scenario_A_plan)
  show "make_imports_str [''a'', ''b''] ''pkg'' =
       Result (''from pkg import a'' @ [NL] @ ''from pkg import b'')"
    by (simp add: make_imports_str_def)
  show "pack_fromimport ''pkg'' (''a'', [''foo'']) = ''from pkg.a import (foo,)''"
    by code_simp
  have ex: "exists (scenario_A_fs hidden init) ''pkg''"
    by (simp add: exists_def scenario_A_fs_def)
  have "autogen_init scenario_A_sa (scenario_A_fs hidden init) ''pkg'' None True =
      Result (Inr (Printed (scenario_A_block @ [NL])))"
    by (simp add: autogen_init_def ex scenario_A_plan scenario_A_initstr)
  then show "\<exists>ws. list_all isspace ws
         \<and> initstr ''pkg'' [''a'', ''b''] [(''a'', [''foo'']), (''b'', [])] False =
             Result (scenario_A_block @ ws)
         \<and> autogen_init scenario_A_sa (scenario_A_fs hidden init) ''pkg'' None True =
             Result (Inr (Printed (scenario_A_block @ ws)))"
    using scenario_A_initstr by (intro exI [of _ "[NL]"]) (simp add: isspace_def)
qed

text \<open>
  The block of scenario A is not the string
  \<^verbatim>\<open>"import pkg.a\nimport pkg.b\nfrom pkg.a import foo,"\<close>.
\<close>

theorem scenario_A_not_plain_imports:
  "initstr ''pkg'' [''a'', ''b''] [(''a'', [''foo'']), (''b'', [])] False \<noteq>
     Result (''import pkg.a'' @ [NL] @ ''import pkg.b'' @ [NL] @ ''from pkg.a import foo,'')"
  by code_simp

subsection \<open>Plan entries without public callables\<close>

text \<open>
  C3, evaluated. \<^verbatim>\<open>_pack_fromimport\<close> gives the empty string for an entry without
  callables, and \<^verbatim>\<open>_make_fromimport_str\<close> joins all the packed strings, the empty ones
  too: the plan \<^verbatim>\<open>[("b", []), ("a", ["foo"])]\<close> renders with an empty line before the
  from-import of \<^verbatim>\<open>a\<close>, and the plan of scenario A with a newline at its end.
\<close>

theorem empty_entry_renders_blank_line:
  "pack_fromimport ''pkg'' (''b'', []) = []
   \<and> make_fromimport_str [(''a'', [''foo'']), (''b'', [])] ''pkg'' =
       ''from pkg.a import (foo,)'' @ [NL]
   \<and> initstr ''pkg'' [''b'', ''a''] [(''b'', []), (''a'', [''foo''])] False =
       Result (''from pkg import b'' @ [NL] @ ''from pkg import a'' @ [NL] @ [NL] @
               ''from pkg.a import (foo,)'')"
  by code_simp

subsection \<open>An explicit submodule that does not resolve\<close>

text \<open>
  C5, evaluated. In the package of scenario A the name \<^verbatim>\<open>missing\<close> resolves to no path:
  \<^verbatim>\<open>modname_to_modpath\<close> returns \<^verbatim>\<open>None\<close>, the source keeps it in \<^verbatim>\<open>import_paths\<close>,
  and the first thing to fail is \<^verbatim>\<open>open(None, 'r')\<close>, with a \<^verbatim>\<open>TypeError\<close>; when the
  name comes second, the submodule before it has been read and parsed by then.
\<close>

theorem unresolved_submodule_type_error:
  "modname_to_modpath scenario_A_sa ''pkg.missing'' = None
   \<and> static_parse_imports scenario_A_sa (scenario_A_fs hidden init) ''pkg'' (Some [''missing''])
       = Inl TypeError
   \<and> static_parse_imports scenario_A_sa (scenario_A_fs hidden init) ''pkg'' (Some [''a'', ''missing''])
       = Inl TypeError
   \<and> autogen_init scenario_A_sa (scenario_A_fs hidden init) ''pkg'' (Some [''a'', ''missing'']) dry
       = Result (Inl TypeError)"
proof -
  have ex: "exists (scenario_A_fs hidden init) ''pkg''"
    by (simp add: exists_def scenario_A_fs_def)
  have 1: "static_parse_imports scenario_A_sa (scenario_A_fs hidden init) ''pkg'' (Some [''missing''])
       = Inl TypeError"
    by (simp add: static_parse_imports_def scenario_A_sa_def scenario_A_fs_def open_read_def)
  have 2: "static_parse_imports scenario_A_sa (scenario_A_fs hidden init) ''pkg'' (Some [''a'', ''missing''])
       = Inl TypeError"
    by (simp add: static_parse_imports_def scenario_A_sa_def scenario_A_fs_def open_read_def
        a_source_def)
  have 3: "autogen_init scenario_A_sa (scenario_A_fs hidden init) ''pkg'' (Some [''a'', ''missing'']) dry
       = Result (Inl TypeError)"
    by (simp add: autogen_init_def ex 2)
  have 0: "modname_to_modpath scenario_A_sa ''pkg.missing'' = None"
    by (simp add: scenario_A_sa_def)
  from 0 1 2 3 show ?thesis by simp
qed

subsection \<open>The boundary scan\<close>

lemmas scan_eval = scan_def scan_prefix_def scan_line_def strip_def lstrip_def rstrip_def
  isspace_def begin_marker_def end_marker_def is_begin_def is_end_def Let_def slice_to_def find_def

lemma startswith_prefix: "startswith s p \<longleftrightarrow> prefix p s"
  by (induction s p rule: startswith.induct) auto

lemma markers_exclusive: "is_begin line \<Longrightarrow> \<not> is_end line"
proof
  assume "is_begin line" and "is_end line"
  then obtain t u where "strip line = begin_marker @ t" and "strip line = end_marker @ u"
    by (auto simp: is_begin_def is_end_def startswith_prefix prefix_def)
  then have "begin_marker @ t = end_marker @ u" by simp
  then show False by (simp add: begin_marker_def end_marker_def)
qed

lemma scan_line_explicit:
  assumes "explicit r"
  shows "explicit (scan_line n line r)"
    and "startline (scan_line n line r) = (if is_begin line then n + 1 else startline r)"
    and "endline (scan_line n line r) = (if is_end line then n else endline r)"
  using assms markers_exclusive [of line]
  by (auto simp: scan_line_def Let_def is_begin_def is_end_def)

lemma scan_from_explicit:
  assumes "explicit r"
  shows "explicit (scan_from n rest r)
    \<and> startline (scan_from n rest r) =
        (case last_index is_begin rest of None \<Rightarrow> startline r | Some j \<Rightarrow> n + j + 1)
    \<and> endline (scan_from n rest r) =
        (case last_index is_end rest of None \<Rightarrow> endline r | Some j \<Rightarrow> n + j)"
  using assms
proof (induction rest arbitrary: n r)
  case Nil
  then show ?case by simp
next
  case (Cons line rest)
  from Cons.prems have ex: "explicit (scan_line n line r)" by (rule scan_line_explicit)
  from Cons.IH [OF ex, of "n + 1"] scan_line_explicit(2,3) [OF Cons.prems, of n line]
  show ?case by (auto split: option.splits)
qed

lemma scan_from_append:
  "scan_from n (xs @ ys) r = scan_from (n + length xs) ys (scan_from n xs r)"
  by (induction xs arbitrary: n r) simp_all

lemma scan_eq_prefix: "scan lines = scan_prefix lines (length lines)"
  by (simp add: scan_def scan_prefix_def)

lemma scan_prefix_Suc:
  assumes "k < length lines"
  shows "scan_prefix lines (Suc k) = scan_line k (lines ! k) (scan_prefix lines k)"
proof -
  have "take (Suc k) lines = take k lines @ [lines ! k]"
    using assms by (simp add: take_Suc_conv_app_nth)
  then show ?thesis
    using assms by (simp add: scan_prefix_def scan_from_append min_def)
qed

lemma scan_split:
  assumes "k \<le> length lines"
  shows "scan lines = scan_from k (drop k lines) (scan_prefix lines k)"
proof -
  have "scan lines = scan_from 0 (take k lines @ drop k lines)
      \<lparr>startline = 0, endline = length lines, explicit = False, init_indent = []\<rparr>"
    by (simp add: scan_def)
  also have "\<dots> = scan_from k (drop k lines) (scan_prefix lines k)"
    unfolding scan_from_append scan_prefix_def using assms by (simp add: min_def)
  finally show ?thesis .
qed

text \<open>
  C7, as the code has it. Let the line with index \<open>k\<close> be an end marker met in explicit
  mode. The iteration sets \<open>endline\<close> to \<open>k\<close> (not past it) and leaves \<open>startline\<close> as it
  was. The loop has no \<^verbatim>\<open>break\<close>: after the whole scan, \<open>startline\<close> is just past the last
  begin marker among the later lines, and unchanged if there is none; \<open>endline\<close> is the
  index of the last end marker among the later lines, and \<open>k\<close> if there is none. Later
  lines that are no markers change neither.
\<close>

theorem scan_continues_after_end_marker:
  assumes "k < length lines" and "explicit (scan_prefix lines k)" and "is_end (lines ! k)"
  shows "endline (scan_prefix lines (k + 1)) = k
    \<and> startline (scan_prefix lines (k + 1)) = startline (scan_prefix lines k)
    \<and> startline (scan lines) =
        (case last_index is_begin (drop (k + 1) lines) of
           None \<Rightarrow> startline (scan_prefix lines k) | Some j \<Rightarrow> k + j + 2)
    \<and> endline (scan lines) =
        (case last_index is_end (drop (k + 1) lines) of None \<Rightarrow> k | Some j \<Rightarrow> k + j + 1)"
proof -
  let ?r = "scan_prefix lines k"
  let ?r' = "scan_prefix lines (k + 1)"
  have step: "?r' = scan_line k (lines ! k) ?r"
    using scan_prefix_Suc [OF assms(1)] by simp
  have nb: "\<not> is_begin (lines ! k)"
    using assms(3) markers_exclusive by blast
  have e: "endline ?r' = k" and s: "startline ?r' = startline ?r" and x: "explicit ?r'"
    unfolding step using scan_line_explicit [OF assms(2), of k "lines ! k"] assms(3) nb by simp_all
  have "scan lines = scan_from (k + 1) (drop (k + 1) lines) ?r'"
    using assms(1) by (intro scan_split) simp
  with scan_from_explicit [OF x, of "k + 1" "drop (k + 1) lines"] e s
  show ?thesis by (auto split: option.splits)
qed

theorem scan_continues_after_end_marker_witness:
  "2 < length marker_lines \<and> explicit (scan_prefix marker_lines 2) \<and> is_end (marker_lines ! 2)
   \<and> endline (scan_prefix marker_lines (2 + 1)) = 2
   \<and> startline (scan_prefix marker_lines (2 + 1)) = 1
   \<and> startline (scan marker_lines) = 1 + 2 + 2
   \<and> endline (scan marker_lines) = 2 + 3 + 1"
proof -
  have h1: "2 < length marker_lines"
    by (simp add: marker_lines_def)
  have h2: "explicit (scan_prefix marker_lines 2)"
    by (simp add: marker_lines_def scan_eval)
  have h3: "is_end (marker_lines ! 2)"
    by (simp add: marker_lines_def scan_eval)
  have s2: "startline (scan_prefix marker_lines 2) = 1"
    by (simp add: marker_lines_def scan_eval)
  have b: "last_index is_begin (drop (2 + 1) marker_lines) = Some 1"
    by (simp add: marker_lines_def scan_eval)
  have e: "last_index is_end (drop (2 + 1) marker_lines) = Some 3"
    by (simp add: marker_lines_def scan_eval)
  from scan_continues_after_end_marker [OF h1 h2 h3] h1 h2 h3
  show ?thesis unfolding b e s2 by simp
qed

text \<open>
  In the file with two marked regions the first end marker has index 2 and is met in
  explicit mode; the lines after it move \<open>startline\<close> from 1 to 5 and \<open>endline\<close> from 2
  to 6.
\<close>

theorem later_markers_move_boundaries:
  "explicit (scan_prefix marker_lines 2) \<and> is_end (marker_lines ! 2)
   \<and> startline (scan_prefix marker_lines 3) = 1 \<and> endline (scan_prefix marker_lines 3) = 2
   \<and> startline (scan marker_lines) \<noteq> startline (scan_prefix marker_lines 3)
   \<and> endline (scan marker_lines) \<noteq> endline (scan_prefix marker_lines 3)"
  by (simp add: marker_lines_def scan_eval)

subsection \<open>What the merge keeps\<close>

lemma rstrip_decomp: "\<exists>ws. list_all isspace ws \<and> rstrip s @ ws = s"
proof (intro exI conjI)
  show "list_all isspace (rev (takeWhile isspace (rev s)))"
    by (simp add: list_all_iff) (meson set_takeWhileD)
  have "rev (dropWhile isspace (rev s)) @ rev (takeWhile isspace (rev s)) = rev (rev s)"
    unfolding rev_append [symmetric] by simp
  then show "rstrip s @ rev (takeWhile isspace (rev s)) = s"
    by (simp add: rstrip_def)
qed

lemma rstrip_last: "rstrip s = [] \<or> \<not> isspace (last (rstrip s))"
proof (cases "dropWhile isspace (rev s)")
  case Nil
  then show ?thesis by (simp add: rstrip_def)
next
  case (Cons c cs)
  then have "\<not> isspace c" by (metis hd_dropWhile list.distinct(1) list.sel(1))
  with Cons show ?thesis by (simp add: rstrip_def)
qed

lemma rstrip_append:
  assumes "\<not> list_all isspace b"
  shows "rstrip (a @ b) = a @ rstrip b"
proof -
  from assms obtain x where "x \<in> set (rev b)" "\<not> isspace x"
    by (auto simp: list_all_iff)
  then have "dropWhile isspace (rev b @ rev a) = dropWhile isspace (rev b) @ rev a"
    by (intro dropWhile_append1)
  then show ?thesis by (simp add: rstrip_def)
qed

lemma rstrip_blank:
  assumes "list_all isspace b"
  shows "rstrip (a @ b) = rstrip a"
proof -
  from assms have "\<forall>x\<in>set (rev b). isspace x" by (simp add: list_all_iff)
  then have "dropWhile isspace (rev b @ rev a) = dropWhile isspace (rev a)"
    by (intro dropWhile_append2) simp
  then show ?thesis by (simp add: rstrip_def)
qed

lemma new_text_Inr:
  assumes "new_text lines block = Inr out"
  shows "startline (scan lines) \<le> endline (scan lines)"
    and "out = rstrip (concat (take (startline (scan lines)) lines)
                 @ (indent block (init_indent (scan lines)) @ [NL])
                 @ concat (drop (endline (scan lines)) lines))"
  using assms by (auto simp: new_text_def Let_def split: if_splits)

text \<open>
  C2, as the code has it. When \<^verbatim>\<open>_autogen_init_write\<close> succeeds, only the init file
  changes. With \<open>raw\<close> the text of the init file before the call, the lines are those of
  \<open>raw\<close> as Python reads it: every \<^verbatim>\<open>\r\n\<close> and every other \<^verbatim>\<open>\r\<close> has become
  \<^verbatim>\<open>\n\<close>, and the lines put together are that text, which is \<open>raw\<close> itself when
  \<open>raw\<close> has no carriage return. The new text of the file is the lines before
  \<open>startline\<close>, the indented block with its newline, and the lines from \<open>endline\<close> on,
  with the whitespace at the end of the whole text stripped: the new text followed by
  some whitespace is that concatenation, and when the lines from \<open>endline\<close> on are not
  all whitespace, the lines before \<open>startline\<close> and the block are there in full and the
  lines from \<open>endline\<close> on without their trailing whitespace.
\<close>

theorem merge_preserves_up_to_trailing_whitespace:
  assumes "autogen_init_write fs modpath block = Inr fs'"
  shows "\<exists>raw out ws.
      files fs (path_join modpath ''__init__.py'') = Some raw
    \<and> files fs' = (files fs)(path_join modpath ''__init__.py'' \<mapsto> out)
    \<and> dirs fs' = dirs fs
    \<and> concat (readlines (universal_newlines raw)) = universal_newlines raw
    \<and> (CR \<in> set raw \<or> universal_newlines raw = raw)
    \<and> startline (scan (readlines (universal_newlines raw)))
        \<le> endline (scan (readlines (universal_newlines raw)))
    \<and> list_all isspace ws
    \<and> out @ ws =
        concat (take (startline (scan (readlines (universal_newlines raw))))
                  (readlines (universal_newlines raw)))
        @ indent block (init_indent (scan (readlines (universal_newlines raw)))) @ [NL]
        @ concat (drop (endline (scan (readlines (universal_newlines raw))))
                    (readlines (universal_newlines raw)))
    \<and> (list_all isspace
          (concat (drop (endline (scan (readlines (universal_newlines raw))))
                     (readlines (universal_newlines raw)))) \<or>
       out =
        concat (take (startline (scan (readlines (universal_newlines raw))))
                  (readlines (universal_newlines raw)))
        @ indent block (init_indent (scan (readlines (universal_newlines raw)))) @ [NL]
        @ rstrip (concat (drop (endline (scan (readlines (universal_newlines raw))))
                            (readlines (universal_newlines raw)))))"
proof -
  let ?p = "path_join modpath ''__init__.py''"
  from assms obtain body out where
    rd: "open_read fs (Some ?p) = Inr body"
    and nt: "new_text (readlines body) block = Inr out"
    and fs': "fs' = open_write fs ?p out"
    by (auto simp: autogen_init_write_def Let_def split: if_splits sum.splits)
  from rd obtain raw where raw: "files fs ?p = Some raw" and body: "body = universal_newlines raw"
    by (auto simp: open_read_def split: option.splits)
  let ?L = "readlines (universal_newlines raw)"
  let ?r = "scan ?L"
  let ?before = "concat (take (startline ?r) ?L)"
  let ?blk = "indent block (init_indent ?r) @ [NL]"
  let ?after = "concat (drop (endline ?r) ?L)"
  from new_text_Inr [OF nt] have le: "startline ?r \<le> endline ?r"
    and out: "out = rstrip (?before @ ?blk @ ?after)" unfolding body by simp_all
  from rstrip_decomp [of "?before @ ?blk @ ?after"] obtain ws where
    ws: "list_all isspace ws" "out @ ws = ?before @ ?blk @ ?after"
    unfolding out by blast
  have tail: "list_all isspace ?after \<or> out = ?before @ ?blk @ rstrip ?after"
  proof (cases "list_all isspace ?after")
    case False
    then have "rstrip ((?before @ ?blk) @ ?after) = (?before @ ?blk) @ rstrip ?after"
      by (rule rstrip_append)
    with out show ?thesis by simp
  qed simp
  have cr: "CR \<in> set raw \<or> universal_newlines raw = raw"
    using un_id [of raw] by blast
  have f: "files fs' = (files fs)(?p \<mapsto> out)" and d: "dirs fs' = dirs fs"
    by (simp_all add: fs' open_write_def)
  have cc: "concat ?L = universal_newlines raw" by (rule concat_readlines)
  from raw f d cc cr le ws tail show ?thesis
    by (intro exI [of _ raw] exI [of _ out] exI [of _ ws] conjI) simp_all
qed

theorem merge_preserves_up_to_trailing_whitespace_witness:
  "autogen_init_write (scenario_A_fs None marked_file) ''pkg'' ''x'' =
     Inr (open_write (scenario_A_fs None marked_file) ''pkg/__init__.py'' marked_file_merged)
   \<and> files (scenario_A_fs None marked_file) ''pkg/__init__.py'' = Some marked_file
   \<and> CR \<notin> set marked_file
   \<and> (\<exists>ws. list_all isspace ws \<and> marked_file_merged @ ws =
         ''# <AUTOGEN_INIT>'' @ [NL] @ ''x'' @ [NL] @ ''# </AUTOGEN_INIT>'' @ [NL] @
         ''footer = 1'' @ [NL])"
proof -
  let ?fs = "scenario_A_fs None marked_file"
  have fl: "files ?fs ''pkg/__init__.py'' = Some marked_file"
    by (simp add: scenario_A_fs_def)
  have nocr: "CR \<notin> set marked_file"
    by (simp add: marked_file_def)
  have un: "universal_newlines marked_file = marked_file"
    by (simp add: marked_file_def)
  have rd: "open_read ?fs (Some ''pkg/__init__.py'') = Inr marked_file"
    by (simp add: open_read_def fl un)
  have ls: "readlines marked_file =
      [''# <AUTOGEN_INIT>'' @ [NL], ''old'' @ [NL], ''# </AUTOGEN_INIT>'' @ [NL], ''footer = 1'' @ [NL]]"
    by (simp add: marked_file_def)
  have sc: "scan (readlines marked_file) =
      \<lparr>startline = 1, endline = 2, explicit = True, init_indent = []\<rparr>"
    unfolding ls by (simp add: scan_eval)
  have nt: "new_text (readlines marked_file) ''x'' = Inr marked_file_merged"
    unfolding new_text_def sc unfolding ls
    by (simp add: indent_def replace_nl_def rstrip_def isspace_def marked_file_merged_def)
  have ex: "exists ?fs ''pkg/__init__.py''"
    by (simp add: exists_def scenario_A_fs_def)
  have h: "autogen_init_write ?fs ''pkg'' ''x'' =
      Inr (open_write ?fs ''pkg/__init__.py'' marked_file_merged)"
    by (simp add: autogen_init_write_def path_join_def ex rd nt)
  from merge_preserves_up_to_trailing_whitespace [OF h] obtain raw out ws where
    1: "files ?fs (path_join ''pkg'' ''__init__.py'') = Some raw"
    and 2: "files (open_write ?fs ''pkg/__init__.py'' marked_file_merged) =
        (files ?fs)(path_join ''pkg'' ''__init__.py'' \<mapsto> out)"
    and 3: "list_all isspace ws"
    and 4: "out @ ws =
        concat (take (startline (scan (readlines (universal_newlines raw))))
                  (readlines (universal_newlines raw)))
        @ indent ''x'' (init_indent (scan (readlines (universal_newlines raw)))) @ [NL]
        @ concat (drop (endline (scan (readlines (universal_newlines raw))))
                    (readlines (universal_newlines raw)))"
    by blast
  from 1 fl have raw: "raw = marked_file" by (simp add: path_join_def)
  from 2 have "((files ?fs)(''pkg/__init__.py'' \<mapsto> marked_file_merged)) ''pkg/__init__.py''
      = ((files ?fs)(''pkg/__init__.py'' \<mapsto> out)) ''pkg/__init__.py''"
    by (simp add: open_write_def path_join_def)
  then have out: "out = marked_file_merged" by simp
  from 4 have "marked_file_merged @ ws =
         ''# <AUTOGEN_INIT>'' @ [NL] @ ''x'' @ [NL] @ ''# </AUTOGEN_INIT>'' @ [NL] @
         ''footer = 1'' @ [NL]"
    unfolding raw un out sc unfolding ls by (simp add: indent_def replace_nl_def)
  with 3 h fl nocr show ?thesis by blast
qed

text \<open>
  The marked file is merged with the block \<^verbatim>\<open>x\<close>: \<open>endline\<close> is 2, and the lines of the
  original file from line 2 on, \<^verbatim>\<open># </AUTOGEN_INIT>\<close> and \<^verbatim>\<open>footer = 1\<close> with their
  newlines, are not the end of the merged text, which has lost the last newline. And
  the file of two lines that end with \<^verbatim>\<open>\r\n\<close> is merged with the block \<^verbatim>\<open>y\<close>:
  \<open>startline\<close> is 1, and the first line of the original file, \<^verbatim>\<open># keep\r\n\<close>, is not
  the beginning of the merged text, where it ends with \<^verbatim>\<open>\n\<close> alone.
\<close>

theorem merge_strips_final_newline:
  "new_text (readlines (universal_newlines marked_file)) ''x'' = Inr marked_file_merged
   \<and> endline (scan (readlines (universal_newlines marked_file))) = 2
   \<and> \<not> suffix (concat (drop 2 (readlines (universal_newlines marked_file)))) marked_file_merged
   \<and> new_text (readlines (universal_newlines crlf_file)) ''y'' = Inr (''# keep'' @ [NL] @ ''y'')
   \<and> startline (scan (readlines (universal_newlines crlf_file))) = 1
   \<and> take 1 (readlines crlf_file) = [''# keep'' @ [CR, NL]]
   \<and> \<not> prefix (''# keep'' @ [CR, NL]) (''# keep'' @ [NL] @ ''y'')"
proof -
  have 1: "new_text (readlines (universal_newlines marked_file)) ''x'' = Inr marked_file_merged
   \<and> endline (scan (readlines (universal_newlines marked_file))) = 2
   \<and> \<not> suffix (concat (drop 2 (readlines (universal_newlines marked_file)))) marked_file_merged"
    by (simp add: marked_file_def marked_file_merged_def new_text_def scan_eval indent_def
        replace_nl_def suffix_to_prefix)
  have ls: "readlines (universal_newlines crlf_file) = [''# keep'' @ [NL], ''x = 1'' @ [NL]]"
    by (simp add: crlf_file_def)
  have sc: "scan [''# keep'' @ [NL], ''x = 1'' @ [NL]] =
      \<lparr>startline = 1, endline = 2, explicit = False, init_indent = []\<rparr>"
    by (simp add: scan_eval)
  have 2: "new_text (readlines (universal_newlines crlf_file)) ''y'' = Inr (''# keep'' @ [NL] @ ''y'')"
    unfolding ls new_text_def sc
    by (simp add: indent_def replace_nl_def rstrip_def isspace_def)
  have 3: "startline (scan (readlines (universal_newlines crlf_file))) = 1"
    unfolding ls sc by simp
  have 4: "take 1 (readlines crlf_file) = [''# keep'' @ [CR, NL]]"
    by (simp add: crlf_file_def)
  have 5: "\<not> prefix (''# keep'' @ [CR, NL]) (''# keep'' @ [NL] @ ''y'')"
    by simp
  from 1 2 3 4 5 show ?thesis by blast
qed

subsection \<open>The plan builder\<close>

lemma enumerate_submodules_filter:
  "enumerate_submodules sa modname ps =
     (map (rel_modname sa modname) (filter (\<lambda>p. \<not> private_modpath sa modname p) ps),
      map Some (filter (\<lambda>p. \<not> private_modpath sa modname p) ps))"
  by (induction ps) (simp_all add: Let_def rel_modname_def private_modpath_def)

lemma parse_submodules_Cons:
  "parse_submodules sa fs ((po, rel) # rest) =
     (case open_read fs po of
        Inl e \<Rightarrow> Inl e
      | Inr source \<Rightarrow>
          (case calldefs sa source of
             Inl e \<Rightarrow> Inl e
           | Inr names \<Rightarrow>
               (case parse_submodules sa fs rest of
                  Inl e \<Rightarrow> Inl e
                | Inr from_imports \<Rightarrow> Inr ((rel, filter public_callname names) # from_imports))))"
proof -
  have eq: "(\<lambda>callname. \<not> (CHR ''.'' \<in> set callname \<or> startswith callname ''_'')) = public_callname"
    by (rule ext) (simp only: public_callname_def)
  show ?thesis by (simp only: parse_submodules.simps Let_def eq)
qed

lemma parse_submodules_Inr:
  assumes "parse_submodules sa fs xs = Inr from_imports"
  shows "map fst from_imports = map snd xs
    \<and> (\<forall>entry\<in>set from_imports. \<forall>c\<in>set (snd entry). public_callname c)"
  using assms
proof (induction xs arbitrary: from_imports)
  case Nil
  then show ?case by simp
next
  case (Cons x xs)
  obtain po rel where x: "x = (po, rel)" by (cases x)
  from Cons.prems obtain names rest where
    rest: "parse_submodules sa fs xs = Inr rest"
    and fi: "from_imports = (rel, filter public_callname names) # rest"
    unfolding x parse_submodules_Cons by (auto split: sum.splits)
  from Cons.IH [OF rest] fi x show ?case by simp
qed

lemma parse_submodules_cong:
  assumes "\<forall>x\<in>set xs. open_read fs2 (fst x) = open_read fs (fst x)"
  shows "parse_submodules sa fs2 xs = parse_submodules sa fs xs"
  using assms
proof (induction xs)
  case Nil
  show ?case by simp
next
  case (Cons x xs)
  obtain po rel where x: "x = (po, rel)" by (cases x)
  from Cons.prems x have o: "open_read fs2 po = open_read fs po" by simp
  from Cons have r: "parse_submodules sa fs2 xs = parse_submodules sa fs xs" by simp
  show ?case unfolding x parse_submodules_Cons o r ..
qed

lemma parse_submodules_public_only:
  "parse_submodules
     (sa\<lparr>package_modpaths := pm,
         calldefs := (\<lambda>source. case calldefs sa source of
                        Inl e \<Rightarrow> Inl e | Inr names \<Rightarrow> Inr (filter public_callname names))\<rparr>) fs xs
   = parse_submodules sa fs xs"
proof (induction xs)
  case Nil
  show ?case by simp
next
  case (Cons x xs)
  obtain po rel where x: "x = (po, rel)" by (cases x)
  show ?case unfolding x parse_submodules_Cons Cons
    by (simp split: sum.splits)
qed

lemma parse_submodules_all_ok:
  assumes "\<forall>x\<in>set xs. \<exists>p src names. fst x = Some p \<and> files fs p = Some src
            \<and> calldefs sa (universal_newlines src) = Inr names"
  shows "\<exists>from_imports. parse_submodules sa fs xs = Inr from_imports
    \<and> list_all2 (\<lambda>x entry. \<exists>p src names. fst x = Some p \<and> files fs p = Some src
            \<and> calldefs sa (universal_newlines src) = Inr names
            \<and> entry = (snd x, filter public_callname names)) xs from_imports"
  using assms
proof (induction xs)
  case Nil
  show ?case by simp
next
  case (Cons x xs)
  obtain po rel where x: "x = (po, rel)" by (cases x)
  from Cons.prems x obtain p src names where
    p: "po = Some p" "files fs p = Some src" "calldefs sa (universal_newlines src) = Inr names"
    by auto
  from Cons obtain rest where
    rest: "parse_submodules sa fs xs = Inr rest"
    "list_all2 (\<lambda>x entry. \<exists>p src names. fst x = Some p \<and> files fs p = Some src
            \<and> calldefs sa (universal_newlines src) = Inr names
            \<and> entry = (snd x, filter public_callname names)) xs rest"
    by auto
  have "parse_submodules sa fs (x # xs) = Inr ((rel, filter public_callname names) # rest)"
    unfolding x parse_submodules_Cons by (simp add: open_read_def p rest(1))
  with rest(2) p x show ?case by auto
qed

subsection \<open>The width of the wrapped from-import\<close>

lemma split_from_ws:
  assumes "tw_whitespace c"
  shows "split_from seen (c # cs) =
     takeWhile tw_whitespace (c # cs)
     # split_from (rev (takeWhile tw_whitespace (c # cs)) @ seen) (dropWhile tw_whitespace (c # cs))"
  by (subst split_from.simps) (simp only: assms if_True)

lemma split_from_dash:
  assumes "\<not> tw_whitespace c" and "seen \<noteq> [] \<and> is_word_punct (hd seen) \<and> emdash_ahead (c # cs)"
  shows "split_from seen (c # cs) =
     takeWhile is_hyphen (c # cs)
     # split_from (rev (takeWhile is_hyphen (c # cs)) @ seen) (dropWhile is_hyphen (c # cs))"
  by (subst split_from.simps) (simp only: assms if_True if_False simp_thms)

lemma split_from_word:
  assumes "\<not> tw_whitespace c" and "\<not> (seen \<noteq> [] \<and> is_word_punct (hd seen) \<and> emdash_ahead (c # cs))"
    and "word_rest (c # seen) cs = (w, r)"
  shows "split_from seen (c # cs) = (c # w) # split_from (rev (c # w) @ seen) r"
  by (subst split_from.simps) (simp only: assms if_False prod.case)

lemma emdash_hyphen: "emdash_ahead (c # cs) \<Longrightarrow> is_hyphen c"
  by (auto simp: emdash_ahead_def split: if_splits)

lemma word_rest_concat: "word_rest seen s = (w, r) \<Longrightarrow> w @ r = s"
proof (induction s arbitrary: seen w r)
  case Nil
  then show ?case by simp
next
  case (Cons c cs)
  obtain w' r' where wr: "word_rest (c # seen) cs = (w', r')"
    by (cases "word_rest (c # seen) cs")
  from Cons.IH [OF wr] have "w' @ r' = cs" .
  with Cons.prems wr show ?case by (auto split: if_splits)
qed

lemma word_rest_end:
  "word_rest seen s = (w, r) \<Longrightarrow>
     r = [] \<or> tw_whitespace (hd r) \<or> is_hyphen (hd r) \<or> (w \<noteq> [] \<and> is_hyphen (last w))"
proof (induction s arbitrary: seen w r)
  case Nil
  then show ?case by simp
next
  case (Cons c cs)
  obtain w' r' where wr: "word_rest (c # seen) cs = (w', r')"
    by (cases "word_rest (c # seen) cs")
  note ih = Cons.IH [OF wr]
  show ?case
  proof (cases "hyphen_break seen (c # cs)")
    case True
    then have "is_hyphen c" by (simp add: hyphen_break_def)
    with True Cons.prems show ?thesis by auto
  next
    case nb: False
    show ?thesis
    proof (cases "tw_whitespace c")
      case True
      with nb Cons.prems show ?thesis by auto
    next
      case nw: False
      show ?thesis
      proof (cases "seen \<noteq> [] \<and> is_word_punct (hd seen) \<and> emdash_ahead (c # cs)")
        case True
        then have "is_hyphen c" by (auto simp: emdash_ahead_def split: if_splits)
        with True nb nw Cons.prems show ?thesis by auto
      next
        case False
        with nb nw Cons.prems wr have "w = c # w'" "r = r'" by auto
        with ih show ?thesis by auto
      qed
    qed
  qed
qed

lemma split_from_Cons:
  "split_from seen (c # cs) \<noteq> [] \<and> hd (split_from seen (c # cs)) \<noteq> []
   \<and> hd (hd (split_from seen (c # cs))) = c"
proof -
  obtain w r where wr: "word_rest (c # seen) cs = (w, r)"
    by (cases "word_rest (c # seen) cs")
  show ?thesis
  proof (cases "tw_whitespace c")
    case True
    show ?thesis unfolding split_from_ws [OF True] using True by simp
  next
    case nw: False
    show ?thesis
    proof (cases "seen \<noteq> [] \<and> is_word_punct (hd seen) \<and> emdash_ahead (c # cs)")
      case True
      then have "is_hyphen c" using emdash_hyphen by blast
      then show ?thesis unfolding split_from_dash [OF nw True] by simp
    next
      case False
      show ?thesis unfolding split_from_word [OF nw False wr] by simp
    qed
  qed
qed

lemma concat_split_from: "concat (split_from seen s) = s"
proof (induction seen s rule: split_from.induct)
  case (1 seen)
  show ?case by (simp add: split_from.simps)
next
  case (2 seen c cs)
  obtain w r where wr: "word_rest (c # seen) cs = (w, r)"
    by (cases "word_rest (c # seen) cs")
  show ?case
  proof (cases "tw_whitespace c")
    case True
    from "2.IH"(1) [OF True] show ?thesis
      unfolding split_from_ws [OF True] by (simp del: takeWhile.simps dropWhile.simps)
  next
    case nw: False
    show ?thesis
    proof (cases "seen \<noteq> [] \<and> is_word_punct (hd seen) \<and> emdash_ahead (c # cs)")
      case True
      from "2.IH"(2) [OF nw True] show ?thesis
        unfolding split_from_dash [OF nw True] by (simp del: takeWhile.simps dropWhile.simps)
    next
      case False
      from "2.IH"(3) [OF nw False wr [symmetric]] have "concat (split_from (rev (c # w) @ seen) r) = r" .
      with word_rest_concat [OF wr] show ?thesis
        unfolding split_from_word [OF nw False wr] by simp
    qed
  qed
qed

lemma split_from_no_empty: "[] \<notin> set (split_from seen s)"
proof (induction seen s rule: split_from.induct)
  case (1 seen)
  show ?case by (simp add: split_from.simps)
next
  case (2 seen c cs)
  obtain w r where wr: "word_rest (c # seen) cs = (w, r)"
    by (cases "word_rest (c # seen) cs")
  have hy: "emdash_ahead (c # cs) \<Longrightarrow> is_hyphen c"
    by (auto simp: emdash_ahead_def split: if_splits)
  show ?case
  proof (cases "tw_whitespace c")
    case True
    from "2.IH"(1) [OF True] show ?thesis
      unfolding split_from_ws [OF True] by (simp add: True)
  next
    case nw: False
    show ?thesis
    proof (cases "seen \<noteq> [] \<and> is_word_punct (hd seen) \<and> emdash_ahead (c # cs)")
      case True
      from "2.IH"(2) [OF nw True] True hy show ?thesis
        unfolding split_from_dash [OF nw True] by simp
    next
      case False
      from "2.IH"(3) [OF nw False wr [symmetric]] show ?thesis
        unfolding split_from_word [OF nw False wr] by simp
    qed
  qed
qed

lemma cut_ok_Cons:
  assumes "cut_ok chunks"
    and "chunks = [] \<or> tw_whitespace (last u) \<or> tw_whitespace (hd (hd chunks))
         \<or> is_hyphen (last u) \<or> is_hyphen (hd (hd chunks))"
  shows "cut_ok (u # chunks)"
  using assms by (cases chunks) auto

lemma split_from_hd: "s \<noteq> [] \<Longrightarrow> hd (hd (split_from seen s)) = hd s"
  using split_from_Cons [of seen "hd s" "tl s"] by simp

lemma split_from_Nil: "split_from seen s = [] \<longleftrightarrow> s = []"
  using split_from_Cons [of seen "hd s" "tl s"] by (cases s) (simp_all add: split_from.simps)

lemma cut_ok_split_from: "cut_ok (split_from seen s)"
proof (induction seen s rule: split_from.induct)
  case (1 seen)
  show ?case by (simp add: split_from.simps)
next
  case (2 seen c cs)
  obtain w r where wr: "word_rest (c # seen) cs = (w, r)"
    by (cases "word_rest (c # seen) cs")
  have hy: "emdash_ahead (c # cs) \<Longrightarrow> is_hyphen c"
    by (auto simp: emdash_ahead_def split: if_splits)
  show ?case
  proof (cases "tw_whitespace c")
    case True
    let ?u = "takeWhile tw_whitespace (c # cs)" and ?r = "dropWhile tw_whitespace (c # cs)"
    have ne: "?u \<noteq> []" using True by simp
    then have "last ?u \<in> set ?u" by (rule last_in_set)
    then have "tw_whitespace (last ?u)" by (rule set_takeWhileD [THEN conjunct2])
    with "2.IH"(1) [OF True] have "cut_ok (?u # split_from (rev ?u @ seen) ?r)"
      by (intro cut_ok_Cons) simp_all
    then show ?thesis
      unfolding split_from_ws [OF True] .
  next
    case nw: False
    show ?thesis
    proof (cases "seen \<noteq> [] \<and> is_word_punct (hd seen) \<and> emdash_ahead (c # cs)")
      case True
      let ?u = "takeWhile is_hyphen (c # cs)" and ?r = "dropWhile is_hyphen (c # cs)"
      have ne: "?u \<noteq> []" using hy True by simp
      then have "last ?u \<in> set ?u" by (rule last_in_set)
      then have "is_hyphen (last ?u)" by (rule set_takeWhileD [THEN conjunct2])
      with "2.IH"(2) [OF nw True] have "cut_ok (?u # split_from (rev ?u @ seen) ?r)"
        by (intro cut_ok_Cons) simp_all
      then show ?thesis
        unfolding split_from_dash [OF nw True] .
    next
      case False
      from "2.IH"(3) [OF nw False wr [symmetric]]
      have ih: "cut_ok (split_from (rev (c # w) @ seen) r)" .
      from word_rest_end [OF wr]
      have "r = [] \<or> tw_whitespace (hd r) \<or> is_hyphen (hd r) \<or> (w \<noteq> [] \<and> is_hyphen (last w))" .
      then have "split_from (rev (c # w) @ seen) r = [] \<or> tw_whitespace (last (c # w))
          \<or> tw_whitespace (hd (hd (split_from (rev (c # w) @ seen) r)))
          \<or> is_hyphen (last (c # w)) \<or> is_hyphen (hd (hd (split_from (rev (c # w) @ seen) r)))"
        by (cases "r = []") (auto simp: split_from_Nil split_from_hd)
      with ih have "cut_ok ((c # w) # split_from (rev (c # w) @ seen) r)"
        by (rule cut_ok_Cons)
      then show ?thesis
        unfolding split_from_word [OF nw False wr] .
    qed
  qed
qed

lemma chunks_contain:
  assumes "cut_ok chunks" and "[] \<notin> set chunks" and "concat chunks = a @ c @ b"
    and "c \<noteq> []" and "\<forall>x\<in>set c. \<not> tw_whitespace x \<and> \<not> is_hyphen x"
  shows "\<exists>w\<in>set chunks. sublist c w"
  using assms(1,2,3)
proof (induction chunks arbitrary: a)
  case Nil
  with assms(4) show ?case by simp
next
  case (Cons u chunks)
  from Cons.prems have une: "u \<noteq> []" and ne: "[] \<notin> set chunks" by auto
  from Cons.prems have ok: "cut_ok chunks" by (cases chunks) auto
  from Cons.prems have cc: "u @ concat chunks = a @ c @ b" by simp
  show ?case
  proof (cases "length u \<le> length a")
    case True
    with cc obtain a' where a: "a = u @ a'"
      by (metis append_eq_append_conv_if append_take_drop_id)
    with cc have "concat chunks = a' @ c @ b" by simp
    from Cons.IH [OF ok ne this] show ?thesis by auto
  next
    case False
    with cc obtain u' where u: "u = a @ u'" and u'ne: "u' \<noteq> []"
      by (metis append_eq_append_conv_if append_take_drop_id drop_eq_Nil linorder_le_cases not_less)
    with cc have cc': "u' @ concat chunks = c @ b" by simp
    show ?thesis
    proof (cases "length c \<le> length u'")
      case True
      with cc' obtain t where "u' = c @ t"
        by (metis append_eq_append_conv_if append_take_drop_id)
      with u have "sublist c u" by (auto simp: sublist_def)
      then show ?thesis by auto
    next
      case long: False
      with cc' obtain c2 where c: "c = u' @ c2" and c2: "c2 \<noteq> []"
        by (metis append_eq_append_conv_if append_take_drop_id drop_eq_Nil linorder_le_cases not_less)
      with cc' have rest: "concat chunks = c2 @ b" by simp
      with c2 obtain v vs where v: "chunks = v # vs" by (cases chunks) auto
      with ne have vne: "v \<noteq> []" by auto
      with rest v c2 have hv: "hd v = hd c2" by (cases v; cases c2) auto
      from u u'ne have lu: "last u = last u'" by simp
      from Cons.prems(1) v have "tw_whitespace (last u) \<or> tw_whitespace (hd v)
          \<or> is_hyphen (last u) \<or> is_hyphen (hd v)" by simp
      moreover have "last u' \<in> set c" "hd c2 \<in> set c"
        using c u'ne c2 by auto
      ultimately show ?thesis using assms(5) lu hv by auto
    qed
  qed
qed

lemma concat_split_chunks: "concat (split_chunks s) = s"
  by (simp add: split_chunks_def concat_split_from)

lemma split_chunks_no_empty: "[] \<notin> set (split_chunks s)"
  by (simp add: split_chunks_def split_from_no_empty)

lemma split_chunks_contains:
  assumes "c \<noteq> []" and "\<forall>x\<in>set c. \<not> tw_whitespace x \<and> \<not> is_hyphen x"
  shows "\<exists>w\<in>set (split_chunks (a @ c @ b)). sublist c w"
  unfolding split_chunks_def
  by (rule chunks_contain [OF cut_ok_split_from split_from_no_empty concat_split_from assms])


lemma wrap_line_props:
  assumes "wrap_line width ii si started chunks = (ind, cur, rest)"
  shows "ind = (if started then si else ii)"
    and "\<exists>d1 d2. chunks = d1 @ cur @ d2 @ rest \<and> list_all blank d1 \<and> list_all blank d2
           \<and> (started \<or> d1 = []) \<or> chunks = []"
    and "cur = [] \<or> int (length (concat cur)) \<le> int width - int (length ind)
         \<or> (\<exists>c. cur = [c] \<and> int width - int (length ind) < int (length c))"
proof -
  define w where "w = int width - int (length (if started then si else ii))"
  define chunks1 where "chunks1 = (if strip (hd chunks) = [] \<and> started then tl chunks else chunks)"
  obtain pre where f: "fill_line w [] 0 chunks1 = (pre, drop (length pre) chunks1)"
    and pre: "pre = take (length pre) chunks1"
    and fit: "pre = [] \<or> int (length (concat pre)) \<le> w"
    using fill_line_split [of w "[]" 0 chunks1] by auto
  define chunks2 where "chunks2 = drop (length pre) chunks1"
  define long where "long \<longleftrightarrow> chunks2 \<noteq> [] \<and> w < int (length (hd chunks2)) \<and> pre = []"
  define cur2 where "cur2 = (if long then [hd chunks2] else pre)"
  define chunks3 where "chunks3 = (if long then tl chunks2 else chunks2)"
  define cur3 where "cur3 = (if cur2 \<noteq> [] \<and> strip (last cur2) = [] then butlast cur2 else cur2)"
  have res: "wrap_line width ii si started chunks = (if started then si else ii, cur3, chunks3)"
  proof -
    have "wrap_line width ii si started chunks =
        (case (if long then ([hd chunks2], tl chunks2) else (pre, chunks2)) of
           (c2, c3) \<Rightarrow> (if started then si else ii,
              if c2 \<noteq> [] \<and> strip (last c2) = [] then butlast c2 else c2, c3))"
      unfolding wrap_line_def Let_def w_def [symmetric] chunks1_def [symmetric] f prod.case
        chunks2_def [symmetric] long_def [symmetric] ..
    also have "\<dots> = (if started then si else ii, cur3, chunks3)"
      by (cases long) (simp_all only: if_True if_False prod.case cur3_def cur2_def chunks3_def)
    finally show ?thesis .
  qed
  with assms have ind: "ind = (if started then si else ii)" and cur: "cur = cur3" and rest: "rest = chunks3"
    by simp_all
  show "ind = (if started then si else ii)" by (rule ind)
  have c1: "\<exists>d1. chunks = d1 @ chunks1 \<and> list_all blank d1 \<and> (started \<or> d1 = []) \<or> chunks = []"
  proof (cases "chunks = []")
    case False
    then obtain c cs where "chunks = c # cs" by (cases chunks) auto
    then show ?thesis
      by (cases "strip c = [] \<and> started")
         (auto simp: chunks1_def blank_def intro: exI [of _ "[c]"] exI [of _ "[]"])
  qed simp
  have c2: "chunks1 = pre @ chunks2"
    using pre by (metis append_take_drop_id chunks2_def)
  have c3: "pre @ chunks2 = cur2 @ chunks3"
    by (cases chunks2) (auto simp: cur2_def chunks3_def long_def)
  have c4: "\<exists>d2. cur2 = cur3 @ d2 \<and> list_all blank d2"
  proof (cases "cur2 \<noteq> [] \<and> strip (last cur2) = []")
    case True
    then have "cur2 = butlast cur2 @ [last cur2]" by simp
    with True show ?thesis
      by (intro exI [of _ "[last cur2]"]) (simp add: cur3_def blank_def)
  next
    case False
    then show ?thesis by (intro exI [of _ "[]"]) (auto simp: cur3_def)
  qed
  show "\<exists>d1 d2. chunks = d1 @ cur @ d2 @ rest \<and> list_all blank d1 \<and> list_all blank d2
           \<and> (started \<or> d1 = []) \<or> chunks = []"
  proof (cases "chunks = []")
    case True
    then show ?thesis by simp
  next
    case False
    with c1 obtain d1 where d1: "chunks = d1 @ chunks1" "list_all blank d1" "started \<or> d1 = []"
      by blast
    from c4 obtain d2 where d2: "cur2 = cur3 @ d2" "list_all blank d2" by blast
    have "chunks = d1 @ cur3 @ d2 @ chunks3"
      unfolding d1(1) c2 c3 d2(1) by simp
    with d1(2,3) d2(2) have "chunks = d1 @ cur @ d2 @ rest \<and> list_all blank d1 \<and> list_all blank d2
           \<and> (started \<or> d1 = [])"
      unfolding cur rest by simp
    then show ?thesis by blast
  qed
  have p2: "cur2 = [] \<or> int (length (concat cur2)) \<le> w \<or> (\<exists>c. cur2 = [c] \<and> w < int (length c))"
    using fit by (auto simp: cur2_def long_def)
  have "length (concat (butlast cur2)) \<le> length (concat cur2)"
    by (cases "cur2 = []") (simp, metis append_butlast_last_id concat_append le_add1 length_append)
  with p2 have "cur3 = [] \<or> int (length (concat cur3)) \<le> w \<or> (\<exists>c. cur3 = [c] \<and> w < int (length c))"
    by (auto simp: cur3_def)
  then show "cur = [] \<or> int (length (concat cur)) \<le> int width - int (length ind)
         \<or> (\<exists>c. cur = [c] \<and> int width - int (length ind) < int (length c))"
    unfolding cur ind w_def .
qed

lemma line_indents_Suc: "line_indents ii si (Suc n) = ii # replicate n si"
  by (simp add: line_indents_def)

lemma wrap_chunks_groups:
  "\<exists>groups. wrap_chunks width ii si lines chunks = lines @ map render_group groups
     \<and> list_all (group_ok width) groups
     \<and> map fst groups = (if lines = [] then line_indents ii si (length groups)
                          else replicate (length groups) si)
     \<and> filter (\<lambda>c. \<not> blank c) (concat (map snd groups)) = filter (\<lambda>c. \<not> blank c) chunks
     \<and> set (concat (map snd groups)) \<subseteq> set chunks
     \<and> (lines = [] \<and> groups \<noteq> [] \<longrightarrow>
          (\<exists>d. list_all blank d \<and> prefix (d @ snd (hd groups)) chunks))"
proof (induction width ii si lines chunks rule: wrap_chunks.induct)
  case (1 width ii si lines chunks)
  show ?case
  proof (cases "chunks = []")
    case True
    then have "wrap_chunks width ii si lines chunks = lines @ map render_group []"
      by (subst wrap_chunks.simps) simp
    with True show ?thesis
      by (intro exI [of _ "[]"]) (simp add: line_indents_def)
  next
    case False
    obtain ind cur rest where wl: "wrap_line width ii si (lines \<noteq> []) chunks = (ind, cur, rest)"
      by (cases "wrap_line width ii si (lines \<noteq> []) chunks") auto
    let ?lines' = "if cur \<noteq> [] then lines @ [ind @ concat cur] else lines"
    from "1.IH" [OF False wl [symmetric] refl] obtain groups where
      g: "wrap_chunks width ii si ?lines' rest = ?lines' @ map render_group groups"
         "list_all (group_ok width) groups"
         "map fst groups = (if ?lines' = [] then line_indents ii si (length groups)
                            else replicate (length groups) si)"
         "filter (\<lambda>c. \<not> blank c) (concat (map snd groups)) = filter (\<lambda>c. \<not> blank c) rest"
         "set (concat (map snd groups)) \<subseteq> set rest"
         "?lines' = [] \<and> groups \<noteq> [] \<longrightarrow>
            (\<exists>d. list_all blank d \<and> prefix (d @ snd (hd groups)) rest)"
      by blast
    have sub: "set cur \<subseteq> set chunks" "set rest \<subseteq> set chunks" if "chunks = d1 @ cur @ d2 @ rest" for d1 d2
      using that by auto
    from wrap_line_props [OF wl] False obtain d1 d2 where
      ind: "ind = (if lines \<noteq> [] then si else ii)"
      and dec: "chunks = d1 @ cur @ d2 @ rest" "list_all blank d1" "list_all blank d2"
      and d1: "lines \<noteq> [] \<or> d1 = []"
      and fit: "cur = [] \<or> int (length (concat cur)) \<le> int width - int (length ind)
         \<or> (\<exists>c. cur = [c] \<and> int width - int (length ind) < int (length c))"
      by auto
    have step: "wrap_chunks width ii si lines chunks = wrap_chunks width ii si ?lines' rest"
      using False wl by (subst wrap_chunks.simps) simp
    have flt: "filter (\<lambda>c. \<not> blank c) chunks
        = filter (\<lambda>c. \<not> blank c) cur @ filter (\<lambda>c. \<not> blank c) rest"
      using dec by (simp add: list_all_iff)
    show ?thesis
    proof (cases "cur = []")
      case True
      have 1: "wrap_chunks width ii si lines chunks = lines @ map render_group groups"
        using step g(1) True by simp
      have 3: "map fst groups = (if lines = [] then line_indents ii si (length groups)
                          else replicate (length groups) si)"
        using g(3) True by simp
      have 4: "filter (\<lambda>c. \<not> blank c) (concat (map snd groups)) = filter (\<lambda>c. \<not> blank c) chunks"
        using g(4) flt True by simp
      have 5: "set (concat (map snd groups)) \<subseteq> set chunks"
        using g(5) sub(2) [OF dec(1)] by blast
      have 6: "lines = [] \<and> groups \<noteq> [] \<longrightarrow>
          (\<exists>d. list_all blank d \<and> prefix (d @ snd (hd groups)) chunks)"
      proof
        assume a: "lines = [] \<and> groups \<noteq> []"
        with g(6) True obtain d where d: "list_all blank d" "prefix (d @ snd (hd groups)) rest"
          by auto
        from a d1 dec(1) True have ch: "chunks = d2 @ rest" by simp
        from d(2) have "prefix ((d2 @ d) @ snd (hd groups)) chunks"
          unfolding ch by simp
        moreover have "list_all blank (d2 @ d)" using d(1) dec(3) by simp
        ultimately show "\<exists>d. list_all blank d \<and> prefix (d @ snd (hd groups)) chunks" by blast
      qed
      from 1 g(2) 3 4 5 6 show ?thesis by blast
    next
      case ne: False
      let ?gs = "(ind, cur) # groups"
      have ok: "group_ok width (ind, cur)"
        using fit ne by (auto simp: group_ok_def render_group_def)
      have 1: "wrap_chunks width ii si lines chunks = lines @ map render_group ?gs"
        using step g(1) ne by (simp add: render_group_def)
      have 2: "list_all (group_ok width) ?gs"
        using ok g(2) by simp
      have 3: "map fst ?gs = (if lines = [] then line_indents ii si (length ?gs)
                          else replicate (length ?gs) si)"
        using g(3) ne ind by (simp add: line_indents_Suc)
      have 4: "filter (\<lambda>c. \<not> blank c) (concat (map snd ?gs)) = filter (\<lambda>c. \<not> blank c) chunks"
        using g(4) flt by simp
      have 5: "set (concat (map snd ?gs)) \<subseteq> set chunks"
        using g(5) sub [OF dec(1)] by auto
      have 6: "lines = [] \<and> ?gs \<noteq> [] \<longrightarrow>
          (\<exists>d. list_all blank d \<and> prefix (d @ snd (hd ?gs)) chunks)"
      proof
        assume "lines = [] \<and> ?gs \<noteq> []"
        with d1 dec(1) have "chunks = cur @ d2 @ rest" by simp
        then have "list_all blank [] \<and> prefix ([] @ snd (hd ?gs)) chunks" by simp
        then show "\<exists>d. list_all blank d \<and> prefix (d @ snd (hd ?gs)) chunks" by (rule exI)
      qed
      from 1 2 3 4 5 6 show ?thesis by blast
    qed
  qed
qed

lemma set_join: "set (join sep xs) \<subseteq> set sep \<union> \<Union> (set ` set xs)"
  by (induction sep xs rule: join.induct) auto

lemma join_contains: "c \<in> set xs \<Longrightarrow> \<exists>a b. join sep xs = a @ c @ b"
proof (induction sep xs rule: join.induct)
  case (1 sep)
  then show ?case by simp
next
  case (2 sep x)
  then have "join sep [x] = [] @ c @ []" by simp
  then show ?case by blast
next
  case (3 sep x y ys)
  show ?case
  proof (cases "c = x")
    case True
    then have "join sep (x # y # ys) = [] @ c @ (sep @ join sep (y # ys))" by simp
    then show ?thesis by blast
  next
    case False
    with "3.prems" have "c \<in> set (y # ys)" by simp
    from "3.IH" [OF this] obtain a b where "join sep (y # ys) = a @ c @ b" by blast
    then have "join sep (x # y # ys) = (x @ sep @ a) @ c @ b" by simp
    then show ?thesis by blast
  qed
qed

lemma expandtabs_append:
  "\<exists>col'. expandtabs_from col (a @ b) = expandtabs_from col a @ expandtabs_from col' b"
proof (induction a arbitrary: col)
  case Nil
  have "expandtabs_from col ([] @ b) = expandtabs_from col [] @ expandtabs_from col b" by simp
  then show ?case by (rule exI)
next
  case (Cons x a)
  show ?case
  proof (cases "x = TAB")
    case True
    from Cons [of "col + (8 - col mod 8)"] obtain col' where
      "expandtabs_from (col + (8 - col mod 8)) (a @ b) =
         expandtabs_from (col + (8 - col mod 8)) a @ expandtabs_from col' b" by blast
    with True have "expandtabs_from col ((x # a) @ b) =
        expandtabs_from col (x # a) @ expandtabs_from col' b" by simp
    then show ?thesis by (rule exI)
  next
    case False
    from Cons [of "if x = NL \<or> x = CR then 0 else col + 1"] obtain col' where
      "expandtabs_from (if x = NL \<or> x = CR then 0 else col + 1) (a @ b) =
         expandtabs_from (if x = NL \<or> x = CR then 0 else col + 1) a @ expandtabs_from col' b"
      by blast
    with False have "expandtabs_from col ((x # a) @ b) =
        expandtabs_from col (x # a) @ expandtabs_from col' b" by simp
    then show ?thesis by (rule exI)
  qed
qed

lemma expandtabs_notab:
  "TAB \<notin> set c \<Longrightarrow> \<exists>col'. expandtabs_from col (c @ b) = c @ expandtabs_from col' b"
proof (induction c arbitrary: col)
  case Nil
  have "expandtabs_from col ([] @ b) = [] @ expandtabs_from col b" by simp
  then show ?case by (rule exI)
next
  case (Cons x c)
  then have x: "x \<noteq> TAB" and c: "TAB \<notin> set c" by auto
  let ?c = "if x = NL \<or> x = CR then 0 else col + 1"
  from Cons.IH [OF c, of ?c] obtain col' where
    "expandtabs_from ?c (c @ b) = c @ expandtabs_from col' b" by blast
  with x have "expandtabs_from col ((x # c) @ b) = (x # c) @ expandtabs_from col' b"
    by simp
  then show ?case by (rule exI)
qed

lemma munge_contains:
  assumes "\<forall>x\<in>set c. tw_whitespace x \<longrightarrow> x = SP"
  shows "\<exists>a' b'. munge_whitespace (a @ c @ b) = a' @ c @ b' \<and> (a = [] \<longrightarrow> a' = [])
           \<and> (b = [] \<longrightarrow> b' = [])"
proof -
  have nt: "TAB \<notin> set c" using assms by (auto simp: tw_whitespace_def)
  obtain col1 where 1: "expandtabs_from 0 (a @ c @ b) = expandtabs_from 0 a @ expandtabs_from col1 (c @ b)"
    using expandtabs_append by blast
  obtain col2 where 2: "expandtabs_from col1 (c @ b) = c @ expandtabs_from col2 b"
    using expandtabs_notab [OF nt] by blast
  have 3: "map (\<lambda>x. if tw_whitespace x then SP else x) c = c"
    using assms by (induction c) auto
  have "munge_whitespace (a @ c @ b) =
      map (\<lambda>x. if tw_whitespace x then SP else x) (expandtabs_from 0 a) @ c
      @ map (\<lambda>x. if tw_whitespace x then SP else x) (expandtabs_from col2 b)"
    unfolding munge_whitespace_def 1 2 map_append 3 ..
  moreover have "a = [] \<longrightarrow> map (\<lambda>x. if tw_whitespace x then SP else x) (expandtabs_from 0 a) = []"
    by simp
  moreover have "b = [] \<longrightarrow> map (\<lambda>x. if tw_whitespace x then SP else x) (expandtabs_from col2 b) = []"
    by simp
  ultimately show ?thesis by blast
qed

lemma munge_no_newline: "NL \<notin> set (munge_whitespace s)"
  by (auto simp: munge_whitespace_def tw_whitespace_def)

lemma not_blank:
  assumes "x \<in> set w" and "\<not> isspace x"
  shows "\<not> blank w"
proof -
  have keep: "x \<in> set (dropWhile isspace v)" if "x \<in> set v" for v
    using that assms(2) by (induction v) auto
  from assms(1) have "x \<in> set (lstrip w)" unfolding lstrip_def by (rule keep)
  then have "x \<in> set (rev (lstrip w))" by simp
  then have "x \<in> set (dropWhile isspace (rev (lstrip w)))" by (rule keep)
  then have "dropWhile isspace (rev (lstrip w)) \<noteq> []" by (metis empty_iff empty_set)
  then show "\<not> blank w" by (simp add: blank_def strip_def rstrip_def)
qed

lemma tw_whitespace_isspace: "tw_whitespace x \<Longrightarrow> isspace x"
  by (auto simp: tw_whitespace_def isspace_def)


lemma pack_fromimport_unfold:
  "pack_fromimport rootmodname (name, fromlist) =
     join [NL] (fromimport_lines rootmodname (name, fromlist))"
  by (simp add: pack_fromimport_def fromimport_lines_def rawstr_def from_module_str_def Let_def)

lemma fromimport_lines_groups:
  "\<exists>groups. fromimport_lines rootmodname (name, fromlist) = map render_group groups
     \<and> list_all (group_ok 79) groups
     \<and> map fst groups =
         line_indents [] (replicate (length (from_module_str rootmodname name)) SP) (length groups)
     \<and> filter (\<lambda>c. \<not> blank c) (concat (map snd groups)) =
         filter (\<lambda>c. \<not> blank c) (split_chunks (munge_whitespace (rawstr rootmodname name fromlist)))
     \<and> set (concat (map snd groups)) \<subseteq>
         set (split_chunks (munge_whitespace (rawstr rootmodname name fromlist)))
     \<and> (groups \<noteq> [] \<longrightarrow>
          (\<exists>d. list_all blank d \<and> prefix (d @ snd (hd groups))
                  (split_chunks (munge_whitespace (rawstr rootmodname name fromlist)))))"
  using wrap_chunks_groups [of 79 "[]" "replicate (length (from_module_str rootmodname name)) SP"
      "[]" "split_chunks (munge_whitespace (rawstr rootmodname name fromlist))"]
  by (simp add: fromimport_lines_def textwrap_wrap_def)

text \<open>
  C4, as the code has it. The from-import of a plan entry is the join of lines that each
  consist of an indentation and whole chunks of the text: the first line has no
  indentation, every other line is indented by as many spaces as
  \<^verbatim>\<open>from <root>.<name> import (\<close> has characters. No line contains a newline; every
  line is at most 79 characters long, except a line that holds one chunk alone that does
  not fit in what the indentation leaves of the 79 columns; the chunks of the lines are
  the chunks of the text, in order, without the blank ones. A chunk ends only at
  whitespace or next to a hyphen, so every non-empty piece of the text that has neither
  whitespace nor a hyphen (every identifier) lies inside one chunk of one line: it is not
  split across two lines.
\<close>

theorem from_import_lines_fit_or_hold_one_word:
  "\<exists>groups.
      pack_fromimport rootmodname (name, fromlist) = join [NL] (map render_group groups)
    \<and> map fst groups =
        line_indents [] (replicate (length (from_module_str rootmodname name)) SP) (length groups)
    \<and> list_all (group_ok 79) groups
    \<and> list_all (\<lambda>g. NL \<notin> set (render_group g)) groups
    \<and> filter (\<lambda>c. \<not> blank c) (concat (map snd groups)) =
        filter (\<lambda>c. \<not> blank c) (split_chunks (munge_whitespace (rawstr rootmodname name fromlist)))
    \<and> cut_ok (split_chunks (munge_whitespace (rawstr rootmodname name fromlist)))
    \<and> (\<forall>a c b. rawstr rootmodname name fromlist = a @ c @ b
          \<and> c \<noteq> [] \<and> (\<forall>x\<in>set c. \<not> isspace x \<and> \<not> is_hyphen x) \<longrightarrow>
          (\<exists>g\<in>set groups. \<exists>w\<in>set (snd g). sublist c w))"
proof -
  let ?raw = "rawstr rootmodname name fromlist"
  let ?np = "replicate (length (from_module_str rootmodname name)) SP"
  let ?chunks = "split_chunks (munge_whitespace ?raw)"
  from fromimport_lines_groups [of rootmodname name fromlist] obtain groups where
    w: "fromimport_lines rootmodname (name, fromlist) = map render_group groups"
    and ok: "list_all (group_ok 79) groups"
    and ind: "map fst groups = line_indents [] ?np (length groups)"
    and flt: "filter (\<lambda>c. \<not> blank c) (concat (map snd groups)) = filter (\<lambda>c. \<not> blank c) ?chunks"
    and sub: "set (concat (map snd groups)) \<subseteq> set ?chunks"
    by blast
  have pack: "pack_fromimport rootmodname (name, fromlist) = join [NL] (map render_group groups)"
    by (simp add: pack_fromimport_unfold w)
  have nl: "list_all (\<lambda>g. NL \<notin> set (render_group g)) groups"
    unfolding list_all_iff
  proof
    fix g assume g: "g \<in> set groups"
    then have "fst g \<in> set (map fst groups)" by simp
    then have "fst g \<in> set (line_indents [] ?np (length groups))" unfolding ind .
    then have "fst g = [] \<or> fst g = ?np"
      by (cases "length groups") (auto simp: line_indents_def)
    then have 1: "NL \<notin> set (fst g)" by auto
    have "set (concat (snd g)) \<subseteq> set (concat ?chunks)"
      using sub g by auto
    then have 2: "NL \<notin> set (concat (snd g))"
      unfolding concat_split_chunks using munge_no_newline by blast
    from 1 2 show "NL \<notin> set (render_group g)" by (simp add: render_group_def)
  qed
  have cut: "cut_ok ?chunks"
    by (simp add: split_chunks_def cut_ok_split_from)
  have ident: "\<forall>a c b. ?raw = a @ c @ b
          \<and> c \<noteq> [] \<and> (\<forall>x\<in>set c. \<not> isspace x \<and> \<not> is_hyphen x) \<longrightarrow>
          (\<exists>g\<in>set groups. \<exists>w\<in>set (snd g). sublist c w)"
  proof (intro allI impI)
    fix a c b
    assume "?raw = a @ c @ b \<and> c \<noteq> [] \<and> (\<forall>x\<in>set c. \<not> isspace x \<and> \<not> is_hyphen x)"
    then have raw: "?raw = a @ c @ b" and ne: "c \<noteq> []"
      and sp: "\<forall>x\<in>set c. \<not> isspace x" and hy: "\<forall>x\<in>set c. \<not> is_hyphen x" by simp_all
    from sp have tw: "\<forall>x\<in>set c. \<not> tw_whitespace x" using tw_whitespace_isspace by blast
    then have "\<forall>x\<in>set c. tw_whitespace x \<longrightarrow> x = SP" by simp
    from munge_contains [OF this, of a b] obtain a' b' where
      "munge_whitespace ?raw = a' @ c @ b'"
      unfolding raw by blast
    with split_chunks_contains [of c a' b'] ne tw hy obtain w where
      w: "w \<in> set ?chunks" "sublist c w" by auto
    from ne obtain x where x: "x \<in> set c" by (cases c) auto
    with w(2) have "x \<in> set w" by (auto simp: sublist_def)
    with x sp have "\<not> blank w" by (intro not_blank [of x]) auto
    with w(1) have "w \<in> set (filter (\<lambda>c. \<not> blank c) ?chunks)" by simp
    then have "w \<in> set (filter (\<lambda>c. \<not> blank c) (concat (map snd groups)))"
      unfolding flt .
    then obtain g where "g \<in> set groups" "w \<in> set (snd g)" by auto
    with w(2) show "\<exists>g\<in>set groups. \<exists>w\<in>set (snd g). sublist c w" by blast
  qed
  from pack ind ok nl flt cut ident show ?thesis by blast
qed

theorem from_import_lines_fit_or_hold_one_word_witness:
  "(\<exists>groups.
        pack_fromimport ''pkg''
          (''mod'', [''alpha_function'', ''beta_function'', ''gamma_function'', ''delta_function'',
                     ''epsilon_function'']) = join [NL] (map render_group groups)
      \<and> map fst groups = line_indents [] (replicate 21 SP) (length groups)
      \<and> list_all (group_ok 79) groups
      \<and> list_all (\<lambda>g. NL \<notin> set (render_group g)) groups
      \<and> list_ex (\<lambda>g. list_ex (sublist ''gamma_function'') (snd g)) groups)
   \<and> pack_fromimport ''pkg''
          (''mod'', [''alpha_function'', ''beta_function'', ''gamma_function'', ''delta_function'',
                     ''epsilon_function'']) =
        ''from pkg.mod import (alpha_function, beta_function, gamma_function,'' @ [NL] @
        ''                     delta_function, epsilon_function,)''"
proof -
  let ?fl = "[''alpha_function'', ''beta_function'', ''gamma_function'', ''delta_function'',
              ''epsilon_function'']"
  have ev: "pack_fromimport ''pkg'' (''mod'', ?fl) =
        ''from pkg.mod import (alpha_function, beta_function, gamma_function,'' @ [NL] @
        ''                     delta_function, epsilon_function,)''"
    by code_simp
  have len: "length (from_module_str ''pkg'' ''mod'') = 21"
    by (simp add: from_module_str_def)
  have raw: "rawstr ''pkg'' ''mod'' ?fl =
      ''from pkg.mod import (alpha_function, beta_function, '' @ ''gamma_function''
      @ '', delta_function, epsilon_function,)''"
    by (simp add: rawstr_def from_module_str_def)
  have c: "''gamma_function'' \<noteq> [] \<and> (\<forall>x\<in>set ''gamma_function''. \<not> isspace x \<and> \<not> is_hyphen x)"
    by (simp add: isspace_def is_hyphen_def)
  from from_import_lines_fit_or_hold_one_word [of "''pkg''" "''mod''" ?fl] obtain groups where
    g: "pack_fromimport ''pkg'' (''mod'', ?fl) = join [NL] (map render_group groups)"
    "map fst groups = line_indents [] (replicate 21 SP) (length groups)"
    "list_all (group_ok 79) groups"
    "list_all (\<lambda>g. NL \<notin> set (render_group g)) groups"
    and ident: "\<forall>a c b. rawstr ''pkg'' ''mod'' ?fl = a @ c @ b
          \<and> c \<noteq> [] \<and> (\<forall>x\<in>set c. \<not> isspace x \<and> \<not> is_hyphen x) \<longrightarrow>
          (\<exists>g\<in>set groups. \<exists>w\<in>set (snd g). sublist c w)"
    unfolding len by blast
  from ident raw c have "\<exists>g\<in>set groups. \<exists>w\<in>set (snd g). sublist ''gamma_function'' w"
    by blast
  then have "list_ex (\<lambda>g. list_ex (sublist ''gamma_function'') (snd g)) groups"
    by (simp add: list_ex_iff)
  with g have "\<exists>groups.
        pack_fromimport ''pkg'' (''mod'', ?fl) = join [NL] (map render_group groups)
      \<and> map fst groups = line_indents [] (replicate 21 SP) (length groups)
      \<and> list_all (group_ok 79) groups
      \<and> list_all (\<lambda>g. NL \<notin> set (render_group g)) groups
      \<and> list_ex (\<lambda>g. list_ex (sublist ''gamma_function'') (snd g)) groups"
    by blast
  with ev show ?thesis by blast
qed

text \<open>
  With the root \<^verbatim>\<open>p\<close> and a submodule name of 60 characters the prefix
  \<^verbatim>\<open>from p.<name> import (\<close> has 76 characters. The second line of the from-import of
  \<^verbatim>\<open>f\<close> and \<^verbatim>\<open>g1234\<close> is 76 spaces and \<^verbatim>\<open>g1234,)\<close>: 83 characters, though no name is
  longer than 79. And a submodule name with a hyphen, when it does not fit on its line, is
  split after the hyphen: the first line ends with \<^verbatim>\<open>_extra-\<close> and the second line
  holds \<^verbatim>\<open>tools_and_more\<close>.
\<close>

theorem long_prefix_line_exceeds_width:
  "pack_fromimport ''p'' (long_name, [''f'', ''g1234'']) =
     (''from p.'' @ long_name @ '' import (f,'') @ [NL] @ (replicate 76 SP @ ''g1234,)'')
   \<and> NL \<notin> set (replicate 76 SP @ ''g1234,)'')
   \<and> 79 < length (replicate 76 SP @ ''g1234,)'')
   \<and> length ''p'' \<le> 79 \<and> length long_name \<le> 79 \<and> length ''f'' \<le> 79 \<and> length ''g1234'' \<le> 79
   \<and> pack_fromimport ''p'' (long_name @ ''_extra-tools_and_more'', [''f'']) =
       (''from p.'' @ long_name @ ''_extra-'') @ [NL] @
       (replicate 97 SP @ ''tools_and_more'') @ [NL] @
       (replicate 97 SP @ ''import'') @ [NL] @
       (replicate 97 SP @ ''(f,)'')"
  by code_simp

subsection \<open>The plan in the rendered block\<close>

lemma split_lines_ne: "split_lines s \<noteq> []"
  by (induction s) (auto split: list.splits)

lemma split_lines_noNL: "NL \<notin> set x \<Longrightarrow> split_lines x = [x]"
  by (induction x) auto

lemma split_lines_append: "split_lines (a @ NL # b) = split_lines a @ split_lines b"
proof (induction a)
  case Nil
  show ?case by simp
next
  case (Cons x a)
  obtain l ls where l: "split_lines a = l # ls"
    using split_lines_ne [of a] by (cases "split_lines a") auto
  with Cons show ?case by simp
qed

lemma split_lines_join:
  "xs \<noteq> [] \<Longrightarrow> split_lines (join [NL] xs) = concat (map split_lines xs)"
proof (induction "[NL]" xs rule: join.induct)
  case 1
  then show ?case by simp
next
  case (2 x)
  show ?case by simp
next
  case (3 x y ys)
  then have "split_lines (join [NL] (y # ys)) = concat (map split_lines (y # ys))" by simp
  then show ?case by (simp add: split_lines_append)
qed

lemma join_Nil: "join sep xs = [] \<Longrightarrow> \<forall>x\<in>set xs. x = []"
  by (induction sep xs rule: join.induct) auto

lemma blank_isspace:
  assumes "blank c"
  shows "\<forall>x\<in>set c. isspace x"
proof -
  from assms have "dropWhile isspace (rev (dropWhile isspace c)) = []"
    by (simp add: blank_def strip_def rstrip_def lstrip_def)
  then have a: "\<forall>x\<in>set (dropWhile isspace c). isspace x"
    by (simp add: dropWhile_eq_Nil_conv)
  have "dropWhile isspace c = []"
  proof (rule ccontr)
    assume ne: "dropWhile isspace c \<noteq> []"
    then have "\<not> isspace (hd (dropWhile isspace c))" by (rule hd_dropWhile)
    moreover from ne have "hd (dropWhile isspace c) \<in> set (dropWhile isspace c)" by simp
    ultimately show False using a by blast
  qed
  then show ?thesis by (simp add: dropWhile_eq_Nil_conv)
qed

lemma fromimport_lines_props:
  assumes "l \<in> set (fromimport_lines root entry)"
  shows "l \<noteq> []" and "NL \<notin> set l"
proof -
  obtain name fromlist where e: "entry = (name, fromlist)" by (cases entry)
  let ?chunks = "split_chunks (munge_whitespace (rawstr root name fromlist))"
  let ?np = "replicate (length (from_module_str root name)) SP"
  from fromimport_lines_groups [of root name fromlist] obtain groups where
    w: "fromimport_lines root (name, fromlist) = map render_group groups"
    and ok: "list_all (group_ok 79) groups"
    and ind: "map fst groups = line_indents [] ?np (length groups)"
    and sub: "set (concat (map snd groups)) \<subseteq> set ?chunks"
    by blast
  from assms obtain g where g: "g \<in> set groups" and l: "l = render_group g"
    unfolding e w by auto
  from ok g have ne: "snd g \<noteq> []" by (simp add: list_all_iff group_ok_def)
  from sub g have s: "set (snd g) \<subseteq> set ?chunks" by auto
  with ne have "hd (snd g) \<in> set ?chunks" by auto
  then have "hd (snd g) \<noteq> []" using split_chunks_no_empty by metis
  with ne have "concat (snd g) \<noteq> []" by (cases "snd g") auto
  then show "l \<noteq> []" by (simp add: l render_group_def)
  from g have "fst g \<in> set (map fst groups)" by simp
  then have "fst g \<in> set (line_indents [] ?np (length groups))" unfolding ind .
  then have "fst g = [] \<or> fst g = ?np"
    by (cases "length groups") (auto simp: line_indents_def)
  then have 1: "NL \<notin> set (fst g)" by auto
  have "set (concat (snd g)) \<subseteq> set (concat ?chunks)" using s by auto
  then have 2: "NL \<notin> set (concat (snd g))"
    unfolding concat_split_chunks using munge_no_newline by blast
  from 1 2 show "NL \<notin> set l" by (simp add: l render_group_def)
qed

lemma split_lines_lines:
  assumes "\<forall>x\<in>set xs. NL \<notin> set x"
  shows "split_lines (join [NL] xs) = (if xs = [] then [[]] else xs)"
proof (cases "xs = []")
  case True
  then show ?thesis by simp
next
  case False
  have "concat (map split_lines xs) = xs"
    using assms by (induction xs) (simp_all add: split_lines_noNL)
  with False show ?thesis by (simp add: split_lines_join)
qed

lemma pack_lines:
  "split_lines (pack_fromimport root entry) =
     (if fromimport_lines root entry = [] then [[]] else fromimport_lines root entry)"
proof -
  obtain name fromlist where e: "entry = (name, fromlist)" by (cases entry)
  have "\<forall>x\<in>set (fromimport_lines root entry). NL \<notin> set x"
    using fromimport_lines_props(2) by blast
  from split_lines_lines [OF this] show ?thesis
    unfolding e pack_fromimport_unfold .
qed

lemma initstr_block:
  assumes "initstr modname imports from_imports False = Result block"
  shows "block = join [NL] (filter (\<lambda>s. length s > 0)
           [join [NL] (map (\<lambda>name. ''from '' @ modname @ '' import '' @ name) imports),
            join [NL] (map (pack_fromimport (fromimport_root modname)) from_imports)])"
  using assms
  by (auto simp: initstr_def make_imports_str_def make_fromimport_str_def fromimport_root_def
      Let_def split: outcome.splits if_splits)


lemma set_split_lines_join:
  "xs \<noteq> [] \<Longrightarrow> set (split_lines (join [NL] xs)) = (\<Union>x\<in>set xs. set (split_lines x))"
  by (simp add: split_lines_join)

lemma join_not_Nil: "x \<in> set xs \<Longrightarrow> x \<noteq> [] \<Longrightarrow> join sep xs \<noteq> []"
  using join_Nil by blast

lemma lines_of_parts:
  "set (split_lines (join [NL] (filter (\<lambda>s. length s > 0) [I, F]))) =
     (if I = [] \<and> F = [] then {[]}
      else (if I = [] then {} else set (split_lines I)) \<union> (if F = [] then {} else set (split_lines F)))"
  by (cases "I = []"; cases "F = []") (simp_all add: split_lines_append)

lemma block_lines_import:
  assumes blk: "initstr modname imports from_imports False = Result block"
    and n: "n \<in> set imports"
    and nl: "NL \<notin> set modname" "NL \<notin> set n"
  shows "''from '' @ modname @ '' import '' @ n \<in> set (split_lines block)"
proof -
  let ?il = "\<lambda>name. ''from '' @ modname @ '' import '' @ name"
  let ?I = "join [NL] (map ?il imports)"
  let ?F = "join [NL] (map (pack_fromimport (fromimport_root modname)) from_imports)"
  have b: "block = join [NL] (filter (\<lambda>s. length s > 0) [?I, ?F])"
    using blk by (rule initstr_block)
  have mem: "?il n \<in> set (map ?il imports)" using n by simp
  then have ne: "map ?il imports \<noteq> []" by auto
  have "?il n \<noteq> []" by simp
  with mem have I: "?I \<noteq> []" by (rule join_not_Nil)
  have "NL \<notin> set (?il n)" using nl by simp
  then have "split_lines (?il n) = [?il n]" by (rule split_lines_noNL)
  with mem have "?il n \<in> (\<Union>x\<in>set (map ?il imports). set (split_lines x))"
    by (intro UN_I [of "?il n"]) simp_all
  then have "?il n \<in> set (split_lines ?I)"
    unfolding set_split_lines_join [OF ne] .
  with I show ?thesis unfolding b lines_of_parts by simp
qed

lemma block_lines_from:
  assumes blk: "initstr modname imports from_imports False = Result block"
    and e: "entry \<in> set from_imports"
    and l: "l \<in> set (fromimport_lines (fromimport_root modname) entry)"
  shows "l \<in> set (split_lines block)"
proof -
  let ?il = "\<lambda>name. ''from '' @ modname @ '' import '' @ name"
  let ?I = "join [NL] (map ?il imports)"
  let ?pk = "pack_fromimport (fromimport_root modname)"
  let ?F = "join [NL] (map ?pk from_imports)"
  have b: "block = join [NL] (filter (\<lambda>s. length s > 0) [?I, ?F])"
    using blk by (rule initstr_block)
  obtain name fromlist where en: "entry = (name, fromlist)" by (cases entry)
  from l have l1: "l \<in> set (split_lines (?pk entry))"
    unfolding pack_lines by auto
  from fromimport_lines_props(1) [OF l] have "l \<noteq> []" .
  with l have pne: "?pk entry \<noteq> []"
    unfolding en pack_fromimport_unfold by (rule join_not_Nil)
  have mem: "?pk entry \<in> set (map ?pk from_imports)" using e by simp
  then have ne: "map ?pk from_imports \<noteq> []" by auto
  from mem pne have F: "?F \<noteq> []" by (rule join_not_Nil)
  from mem l1 have "l \<in> (\<Union>x\<in>set (map ?pk from_imports). set (split_lines x))"
    by (intro UN_I [of "?pk entry"])
  then have "l \<in> set (split_lines ?F)"
    unfolding set_split_lines_join [OF ne] .
  with F show ?thesis unfolding b lines_of_parts by simp
qed

lemma block_lines_sub:
  assumes blk: "initstr modname imports from_imports False = Result block"
    and nl: "NL \<notin> set modname" "\<forall>n\<in>set imports. NL \<notin> set n"
    and l: "l \<in> set (split_lines block)"
  shows "l = [] \<or> (\<exists>n\<in>set imports. l = ''from '' @ modname @ '' import '' @ n)
     \<or> (\<exists>entry\<in>set from_imports. l \<in> set (fromimport_lines (fromimport_root modname) entry))"
proof -
  let ?il = "\<lambda>name. ''from '' @ modname @ '' import '' @ name"
  let ?I = "join [NL] (map ?il imports)"
  let ?pk = "pack_fromimport (fromimport_root modname)"
  let ?F = "join [NL] (map ?pk from_imports)"
  have b: "block = join [NL] (filter (\<lambda>s. length s > 0) [?I, ?F])"
    using blk by (rule initstr_block)
  from l have "l = [] \<or> ?I \<noteq> [] \<and> l \<in> set (split_lines ?I) \<or> ?F \<noteq> [] \<and> l \<in> set (split_lines ?F)"
    unfolding b lines_of_parts by (auto split: if_splits)
  then consider "l = []" | "?I \<noteq> []" "l \<in> set (split_lines ?I)" | "?F \<noteq> []" "l \<in> set (split_lines ?F)"
    by blast
  then show ?thesis
  proof cases
    case 1
    then show ?thesis by simp
  next
    case 2
    then have ne: "map ?il imports \<noteq> []" by auto
    from 2(2) obtain n where n: "n \<in> set imports" "l \<in> set (split_lines (?il n))"
      unfolding set_split_lines_join [OF ne] by auto
    have "NL \<notin> set (?il n)" using nl n(1) by simp
    then have "split_lines (?il n) = [?il n]" by (rule split_lines_noNL)
    with n show ?thesis by auto
  next
    case 3
    then have ne: "map ?pk from_imports \<noteq> []" by auto
    from 3(2) obtain entry where e: "entry \<in> set from_imports" "l \<in> set (split_lines (?pk entry))"
      unfolding set_split_lines_join [OF ne] by auto
    from e(2) have "l = [] \<or> l \<in> set (fromimport_lines (fromimport_root modname) entry)"
      unfolding pack_lines by (auto split: if_splits)
    with e(1) show ?thesis by auto
  qed
qed


lemma fill_line_all:
  "n + int (length (concat chunks)) \<le> w \<Longrightarrow> fill_line w cl n chunks = (cl @ chunks, [])"
proof (induction chunks arbitrary: cl n)
  case Nil
  show ?case by simp
next
  case (Cons c chunks)
  from Cons.prems have 1: "n + int (length c) \<le> w"
    and 2: "(n + int (length c)) + int (length (concat chunks)) \<le> w" by simp_all
  from Cons.IH [OF 2, of "cl @ [c]"] 1 show ?case by simp
qed

lemma last_concat:
  assumes "chunks \<noteq> []" and "last chunks \<noteq> []"
  shows "last (concat chunks) = last (last chunks)"
proof -
  from assms(1) have "chunks = butlast chunks @ [last chunks]" by simp
  then have "concat chunks = concat (butlast chunks) @ last chunks"
    by (metis concat.simps(1,2) concat_append append_Nil2)
  with assms(2) show ?thesis by simp
qed

lemma wrap_chunks_fits:
  assumes ne: "chunks \<noteq> []" and nonempty: "[] \<notin> set chunks"
    and fits: "length ii + length (concat chunks) \<le> width"
    and sp: "\<not> isspace (last (concat chunks))"
  shows "wrap_chunks width ii si [] chunks = [ii @ concat chunks]"
proof -
  let ?w = "int width - int (length ii)"
  from fits have "0 + int (length (concat chunks)) \<le> ?w" by simp
  then have f: "fill_line ?w [] 0 chunks = ([] @ chunks, [])" by (rule fill_line_all)
  from ne nonempty have lne: "last chunks \<noteq> []" by (metis last_in_set)
  then have "last (last chunks) \<in> set (last chunks)" by simp
  moreover have "\<not> isspace (last (last chunks))"
    using sp last_concat [OF ne lne] by simp
  ultimately have "\<not> blank (last chunks)" by (rule not_blank)
  then have nb: "strip (last chunks) \<noteq> []" by (simp add: blank_def)
  have wl: "wrap_line width ii si False chunks = (ii, chunks, [])"
    using f nb by (simp add: wrap_line_def Let_def)
  have "wrap_chunks width ii si [] chunks = wrap_chunks width ii si [ii @ concat chunks] []"
    using ne wl by (subst wrap_chunks.simps) simp
  also have "\<dots> = [ii @ concat chunks]"
    by (subst wrap_chunks.simps) simp
  finally show ?thesis .
qed

lemma join_last:
  "fromlist \<noteq> [] \<Longrightarrow> rawstr root name fromlist \<noteq> [] \<and> last (rawstr root name fromlist) = CHR '')''"
  by (simp add: rawstr_def)

lemma munge_id:
  assumes "\<forall>x\<in>set c. tw_whitespace x \<longrightarrow> x = SP"
  shows "munge_whitespace c = c"
  using munge_contains [OF assms, of "[]" "[]"] by auto

lemma fromimport_lines_short:
  assumes fl: "fromlist \<noteq> []"
    and ws: "\<forall>x\<in>set (rawstr root name fromlist). tw_whitespace x \<longrightarrow> x = SP"
    and len: "length (rawstr root name fromlist) \<le> 79"
  shows "fromimport_lines root (name, fromlist) = [rawstr root name fromlist]"
proof -
  let ?raw = "rawstr root name fromlist"
  let ?chunks = "split_chunks ?raw"
  from join_last [OF fl] have rne: "?raw \<noteq> []" and lst: "last ?raw = CHR '')''" by simp_all
  have cc: "concat ?chunks = ?raw" by (rule concat_split_chunks)
  with rne have ne: "?chunks \<noteq> []" by auto
  have "\<not> isspace (last (concat ?chunks))" unfolding cc lst by (simp add: isspace_def)
  moreover have "length ([] :: string) + length (concat ?chunks) \<le> 79" unfolding cc using len by simp
  ultimately have "wrap_chunks 79 [] (replicate (length (from_module_str root name)) SP) [] ?chunks
      = [[] @ concat ?chunks]"
    using ne split_chunks_no_empty by (intro wrap_chunks_fits)
  then show ?thesis
    by (simp add: fromimport_lines_def textwrap_wrap_def munge_id [OF ws] cc)
qed

lemma fromimport_line_not_import:
  assumes l: "l \<in> set (fromimport_lines (fromimport_root modname) (name, fromlist))"
    and wm: "\<forall>x\<in>set modname. \<not> isspace x" and wn: "\<forall>x\<in>set name. \<not> isspace x"
    and x: "startswith x ''_''"
  shows "l \<noteq> ''from '' @ modname @ '' import '' @ x"
proof
  assume eq: "l = ''from '' @ modname @ '' import '' @ x"
  let ?root = "fromimport_root modname"
  let ?raw = "rawstr ?root name fromlist"
  let ?fms = "from_module_str ?root name"
  let ?np = "replicate (length ?fms) SP"
  let ?chunks = "split_chunks (munge_whitespace ?raw)"
  from fromimport_lines_groups [of ?root name fromlist] obtain groups where
    w: "fromimport_lines ?root (name, fromlist) = map render_group groups"
    and ind: "map fst groups = line_indents [] ?np (length groups)"
    and pre: "groups \<noteq> [] \<longrightarrow> (\<exists>d. list_all blank d \<and> prefix (d @ snd (hd groups)) ?chunks)"
    by blast
  from l obtain i where i: "i < length groups" and li: "l = render_group (groups ! i)"
    unfolding w by (auto simp: in_set_conv_nth)
  then obtain k where k: "length groups = Suc k" by (cases "length groups") auto
  from i have "fst (groups ! i) = map fst groups ! i" by simp
  then have fi: "fst (groups ! i) = ([] # replicate k ?np) ! i"
    unfolding ind k line_indents_Suc .
  have root_ws: "\<forall>x\<in>set ?root. \<not> isspace x"
    using wm by (simp add: fromimport_root_def)
  show False
  proof (cases i)
    case (Suc j)
    with i k have "j < k" by simp
    with fi Suc have "fst (groups ! i) = ?np" by simp
    then have "l = ?np @ concat (snd (groups ! i))" by (simp add: li render_group_def)
    moreover have "?np = SP # replicate (length ?fms - 1) SP"
      by (simp add: from_module_str_def)
    ultimately have "hd l = SP" by simp
    with eq show False by simp
  next
    case 0
    with fi have "fst (groups ! i) = []" by simp
    moreover from 0 i have "groups ! i = hd groups" by (cases groups) auto
    ultimately have l0: "l = concat (snd (hd groups))" by (simp add: li render_group_def)
    from i pre obtain d where d: "list_all blank d" "prefix (d @ snd (hd groups)) ?chunks"
      by auto
    from d(2) obtain t where "?chunks = (d @ snd (hd groups)) @ t" by (auto simp: prefix_def)
    then have "concat ?chunks = concat d @ l @ concat t" by (simp add: l0)
    then have m: "munge_whitespace ?raw = concat d @ l @ concat t"
      unfolding concat_split_chunks .
    have dsp: "\<forall>y\<in>set (concat d). isspace y"
      using d(1) blank_isspace by (auto simp: list_all_iff)
    show False
    proof (cases "fromlist = []")
      case True
      then have "munge_whitespace ?raw = []" by (simp add: rawstr_def munge_whitespace_def)
      with m eq show False by simp
    next
      case False
      then have raw: "?raw = [] @ ?fms @ (join '', '' fromlist @ '',)'')"
        by (simp add: rawstr_def)
      have "\<forall>y\<in>set ?fms. tw_whitespace y \<longrightarrow> y = SP"
        using root_ws wn tw_whitespace_isspace
        by (auto simp: from_module_str_def tw_whitespace_def)
      from munge_contains [OF this, of "[]" "join '', '' fromlist @ '',)''"] obtain b' where
        m2: "munge_whitespace ?raw = ?fms @ b'"
        unfolding raw [symmetric] by auto
      have "concat d = []"
      proof (rule ccontr)
        assume "concat d \<noteq> []"
        then have h1: "hd (concat d) \<in> set (concat d)" by (rule hd_in_set)
        from \<open>concat d \<noteq> []\<close> have h2: "hd (munge_whitespace ?raw) = hd (concat d)"
          unfolding m by simp
        from dsp h1 have "isspace (hd (concat d))" by blast
        then have "isspace (hd (munge_whitespace ?raw))" unfolding h2 .
        then show False unfolding m2 by (simp add: from_module_str_def isspace_def)
      qed
      with m m2 have p: "?fms @ b' = l @ concat t" by simp
      show False
      proof (cases "modname = ''.''")
        case ndot: False
        then have "?fms = ''from '' @ modname @ ''.'' @ name @ '' import (''"
          by (simp add: from_module_str_def fromimport_root_def)
        with p eq show False by simp
      next
        case True
        then have f: "?fms = ''from .'' @ name @ '' import (''"
          by (simp add: from_module_str_def fromimport_root_def)
        from x obtain x' where x': "x = CHR ''_'' # x'" by (cases x) auto
        from p have "(''from .'' @ name @ '' import ('') @ b' = l @ concat t"
          unfolding f .
        then have p': "name @ '' import ('' @ b' = '' import '' @ x @ concat t"
          unfolding eq True by simp
        show False
        proof (cases name)
          case Nil
          with p' x' show False by simp
        next
          case (Cons y ys)
          with p' have "y = SP" by simp
          with wn Cons show False by (simp add: isspace_def)
        qed
      qed
    qed
  qed
qed


lemma autogen_init_dry:
  assumes "exists fs modpath"
    and "static_parse_imports sa fs modpath imports = Inr (modname, imports', from_imports)"
    and "initstr modname imports' from_imports False = Result block"
  shows "autogen_init sa fs modpath imports True = Result (Inr (Printed block))"
  by (simp add: autogen_init_def assms)

lemma isspace_NL: "isspace NL"
  by (simp add: isspace_def)

text \<open>
  C9. In enumeration mode, let the plan be built and the block be rendered from it, where
  the root name and the relative names have no whitespace. The
  names in \<^verbatim>\<open>imports\<close> are the relative names of the enumerated submodules that do not
  start with an underscore, in the order of the enumeration; the plan has one entry per
  such name and no other; no callable in any entry starts with an underscore or contains
  a dot. The submodules with an underscore name are not read: any other file system that
  agrees on all files but theirs (they may have any content, or be missing) gives the
  same plan, and the plan is the one obtained when the enumeration never lists the
  underscore submodules and the parser never reports a name with a leading underscore or
  a dot. In the block, which is what a dry run on the package directory prints in each
  of these worlds: every name
  of \<^verbatim>\<open>imports\<close> has its line \<^verbatim>\<open>from <root> import <name>\<close>; every line of the
  from-import of every entry is a line of the block; every line of the block is empty, or
  the import line of a name of \<^verbatim>\<open>imports\<close>, or a line of the from-import of an entry of the
  plan (wrapped from \<^verbatim>\<open>from <root>.<name> import (c1, ..., cn,)\<close> with the callables of
  the entry, and equal to it when that text has only spaces as whitespace and at most 79
  characters); and for no enumerated submodule with an underscore name is
  \<^verbatim>\<open>from <root> import <name>\<close> a line of the block.
\<close>

theorem enumeration_excludes_private:
  assumes plan: "static_parse_imports sa fs modpath None = Inr (modname, imports, from_imports)"
    and same: "\<forall>p. \<not> private_modpath sa (modpath_to_modname sa modpath) p \<longrightarrow> files fs2 p = files fs p"
    and blk: "initstr modname imports from_imports False = Result block"
    and wsm: "\<forall>x\<in>set modname. \<not> isspace x"
    and wsi: "\<forall>n\<in>set imports. \<forall>x\<in>set n. \<not> isspace x"
  shows "modname = modpath_to_modname sa modpath
    \<and> imports = map (rel_modname sa modname)
                  (filter (\<lambda>p. \<not> private_modpath sa modname p) (package_modpaths sa modpath))
    \<and> (\<forall>n\<in>set imports. \<not> startswith n ''_'')
    \<and> map fst from_imports = imports
    \<and> (\<forall>entry\<in>set from_imports. \<forall>c\<in>set (snd entry).
          \<not> startswith c ''_'' \<and> CHR ''.'' \<notin> set c)
    \<and> static_parse_imports sa fs2 modpath None = Inr (modname, imports, from_imports)
    \<and> static_parse_imports
         (sa\<lparr>package_modpaths :=
                (\<lambda>p. filter (\<lambda>q. \<not> private_modpath sa modname q) (package_modpaths sa p)),
             calldefs :=
                (\<lambda>source. case calldefs sa source of
                   Inl e \<Rightarrow> Inl e | Inr names \<Rightarrow> Inr (filter public_callname names))\<rparr>)
         fs modpath None = Inr (modname, imports, from_imports)
    \<and> (exists fs modpath \<longrightarrow>
          autogen_init sa fs modpath None True = Result (Inr (Printed block)))
    \<and> (exists fs2 modpath \<longrightarrow>
          autogen_init sa fs2 modpath None True = Result (Inr (Printed block)))
    \<and> (exists fs modpath \<longrightarrow>
          autogen_init
            (sa\<lparr>package_modpaths :=
                   (\<lambda>p. filter (\<lambda>q. \<not> private_modpath sa modname q) (package_modpaths sa p)),
                calldefs :=
                   (\<lambda>source. case calldefs sa source of
                      Inl e \<Rightarrow> Inl e | Inr names \<Rightarrow> Inr (filter public_callname names))\<rparr>)
            fs modpath None True = Result (Inr (Printed block)))
    \<and> (\<forall>n\<in>set imports. ''from '' @ modname @ '' import '' @ n \<in> set (split_lines block))
    \<and> (\<forall>entry\<in>set from_imports.
          \<forall>l\<in>set (fromimport_lines (fromimport_root modname) entry). l \<in> set (split_lines block))
    \<and> (\<forall>l\<in>set (split_lines block).
          l = [] \<or> (\<exists>n\<in>set imports. l = ''from '' @ modname @ '' import '' @ n)
          \<or> (\<exists>entry\<in>set from_imports.
                l \<in> set (fromimport_lines (fromimport_root modname) entry)))
    \<and> (\<forall>entry\<in>set from_imports.
          snd entry \<noteq> []
          \<and> (\<forall>x\<in>set (rawstr (fromimport_root modname) (fst entry) (snd entry)).
                tw_whitespace x \<longrightarrow> x = SP)
          \<and> length (rawstr (fromimport_root modname) (fst entry) (snd entry)) \<le> 79 \<longrightarrow>
          fromimport_lines (fromimport_root modname) entry =
            [rawstr (fromimport_root modname) (fst entry) (snd entry)])
    \<and> (\<forall>p\<in>set (package_modpaths sa modpath). private_modpath sa modname p \<longrightarrow>
          ''from '' @ modname @ '' import '' @ rel_modname sa modname p \<notin> set (split_lines block))"
proof -
  let ?mn = "modpath_to_modname sa modpath"
  let ?pub = "filter (\<lambda>p. \<not> private_modpath sa ?mn p) (package_modpaths sa modpath)"
  let ?xs = "zip (map Some ?pub) (map (rel_modname sa ?mn) ?pub)"
  from plan have mn: "modname = ?mn"
    and im: "imports = map (rel_modname sa ?mn) ?pub"
    and ps: "parse_submodules sa fs ?xs = Inr from_imports"
    by (auto simp: static_parse_imports_def enumerate_submodules_filter Let_def split: sum.splits)
  have pubnames: "\<forall>n\<in>set imports. \<not> startswith n ''_''"
    unfolding im by (auto simp: private_modpath_def)
  from parse_submodules_Inr [OF ps] have fst: "map fst from_imports = imports"
    and calls: "\<forall>entry\<in>set from_imports. \<forall>c\<in>set (snd entry). public_callname c"
    by (simp_all add: im)
  have "\<forall>x\<in>set ?xs. open_read fs2 (fst x) = open_read fs (fst x)"
    using same by (auto simp: open_read_def zip_map_map dest!: set_zip_leftD)
  then have "parse_submodules sa fs2 ?xs = parse_submodules sa fs ?xs"
    by (rule parse_submodules_cong)
  with ps have fs2: "static_parse_imports sa fs2 modpath None = Inr (modname, imports, from_imports)"
    by (simp add: static_parse_imports_def enumerate_submodules_filter Let_def mn im)
  let ?sa' = "sa\<lparr>package_modpaths :=
                (\<lambda>p. filter (\<lambda>q. \<not> private_modpath sa ?mn q) (package_modpaths sa p)),
             calldefs :=
                (\<lambda>source. case calldefs sa source of
                   Inl e \<Rightarrow> Inl e | Inr names \<Rightarrow> Inr (filter public_callname names))\<rparr>"
  have priv': "private_modpath ?sa' ?mn = private_modpath sa ?mn"
    and rel': "rel_modname ?sa' ?mn = rel_modname sa ?mn"
    by (auto simp: private_modpath_def rel_modname_def fun_eq_iff)
  have ff: "filter (\<lambda>p. \<not> private_modpath sa ?mn p) ?pub = ?pub"
    by simp
  have mn': "modpath_to_modname ?sa' modpath = ?mn"
    and pm': "package_modpaths ?sa' modpath = ?pub"
    by simp_all
  have "enumerate_submodules ?sa' ?mn ?pub = (map (rel_modname sa ?mn) ?pub, map Some ?pub)"
    unfolding enumerate_submodules_filter priv' rel' ff ..
  moreover have "parse_submodules ?sa' fs ?xs = Inr from_imports"
    using ps parse_submodules_public_only [of sa _ fs ?xs] by simp
  ultimately have sa': "static_parse_imports ?sa' fs modpath None = Inr (modname, imports, from_imports)"
    unfolding static_parse_imports_def mn' pm' by (simp add: im mn Let_def)
  have calls': "\<forall>entry\<in>set from_imports. \<forall>c\<in>set (snd entry).
          \<not> startswith c ''_'' \<and> CHR ''.'' \<notin> set c"
    using calls by (auto simp: public_callname_def)
  have dry: "exists fs modpath \<longrightarrow>
      autogen_init sa fs modpath None True = Result (Inr (Printed block))"
    using plan blk by (auto intro: autogen_init_dry)
  have dry2: "exists fs2 modpath \<longrightarrow>
      autogen_init sa fs2 modpath None True = Result (Inr (Printed block))"
    using fs2 blk by (auto intro: autogen_init_dry)
  have dry': "exists fs modpath \<longrightarrow>
      autogen_init ?sa' fs modpath None True = Result (Inr (Printed block))"
    using sa' blk by (auto intro: autogen_init_dry)
  have nlm: "NL \<notin> set modname" using wsm isspace_NL by blast
  have nli: "\<forall>n\<in>set imports. NL \<notin> set n" using wsi isspace_NL by blast
  have r0: "\<forall>n\<in>set imports. ''from '' @ modname @ '' import '' @ n \<in> set (split_lines block)"
    using block_lines_import [OF blk _ nlm] nli by blast
  have r1: "\<forall>entry\<in>set from_imports.
      \<forall>l\<in>set (fromimport_lines (fromimport_root modname) entry). l \<in> set (split_lines block)"
    using block_lines_from [OF blk] by blast
  have r2: "\<forall>l\<in>set (split_lines block).
          l = [] \<or> (\<exists>n\<in>set imports. l = ''from '' @ modname @ '' import '' @ n)
          \<or> (\<exists>entry\<in>set from_imports.
                l \<in> set (fromimport_lines (fromimport_root modname) entry))"
    using block_lines_sub [OF blk nlm nli] by blast
  have r3: "\<forall>entry\<in>set from_imports.
          snd entry \<noteq> []
          \<and> (\<forall>x\<in>set (rawstr (fromimport_root modname) (fst entry) (snd entry)).
                tw_whitespace x \<longrightarrow> x = SP)
          \<and> length (rawstr (fromimport_root modname) (fst entry) (snd entry)) \<le> 79 \<longrightarrow>
          fromimport_lines (fromimport_root modname) entry =
            [rawstr (fromimport_root modname) (fst entry) (snd entry)]"
  proof (intro ballI impI)
    fix entry :: "string \<times> string list"
    assume "snd entry \<noteq> []
          \<and> (\<forall>x\<in>set (rawstr (fromimport_root modname) (fst entry) (snd entry)).
                tw_whitespace x \<longrightarrow> x = SP)
          \<and> length (rawstr (fromimport_root modname) (fst entry) (snd entry)) \<le> 79"
    then have "fromimport_lines (fromimport_root modname) (fst entry, snd entry) =
            [rawstr (fromimport_root modname) (fst entry) (snd entry)]"
      by (intro fromimport_lines_short) simp_all
    then show "fromimport_lines (fromimport_root modname) entry =
            [rawstr (fromimport_root modname) (fst entry) (snd entry)]" by simp
  qed
  have r4: "\<forall>p\<in>set (package_modpaths sa modpath). private_modpath sa modname p \<longrightarrow>
          ''from '' @ modname @ '' import '' @ rel_modname sa modname p \<notin> set (split_lines block)"
  proof (intro ballI impI notI)
    fix p
    assume priv: "private_modpath sa modname p"
      and mem: "''from '' @ modname @ '' import '' @ rel_modname sa modname p \<in> set (split_lines block)"
    let ?x = "rel_modname sa modname p"
    let ?l = "''from '' @ modname @ '' import '' @ ?x"
    from priv have x: "startswith ?x ''_''" by (simp add: private_modpath_def)
    from block_lines_sub [OF blk nlm nli mem]
    consider "?l = []" | n where "n \<in> set imports" "?l = ''from '' @ modname @ '' import '' @ n"
      | entry where "entry \<in> set from_imports"
          "?l \<in> set (fromimport_lines (fromimport_root modname) entry)"
      by blast
    then show False
    proof cases
      case 1
      then show False by simp
    next
      case 2
      then have "n = ?x" by simp
      with 2(1) pubnames x show False by blast
    next
      case 3
      obtain name fromlist where e: "entry = (name, fromlist)" by (cases entry)
      from 3(1) have "fst entry \<in> set (map fst from_imports)" by simp
      then have "name \<in> set imports" unfolding fst e by simp
      with wsi have wn: "\<forall>x\<in>set name. \<not> isspace x" by blast
      from fromimport_line_not_import [OF 3(2) [unfolded e] wsm wn x] show False by simp
    qed
  qed
  from mn im pubnames fst calls' fs2 sa' dry dry2 dry' r0 r1 r2 r3 r4 show ?thesis
    unfolding mn [symmetric] by (intro conjI)
qed

theorem enumeration_excludes_private_witness:
  "static_parse_imports scenario_A_sa (scenario_A_fs (Some ''import os'') []) ''pkg'' None =
     Inr (''pkg'', [''a'', ''b''], [(''a'', [''foo'']), (''b'', [])])
   \<and> private_modpath scenario_A_sa ''pkg'' ''pkg/_hidden.py''
   \<and> static_parse_imports scenario_A_sa (scenario_A_fs None []) ''pkg'' None =
     Inr (''pkg'', [''a'', ''b''], [(''a'', [''foo'']), (''b'', [])])
   \<and> autogen_init scenario_A_sa (scenario_A_fs (Some ''import os'') []) ''pkg'' None True =
       Result (Inr (Printed (scenario_A_block @ [NL])))
   \<and> autogen_init scenario_A_sa (scenario_A_fs None []) ''pkg'' None True =
       Result (Inr (Printed (scenario_A_block @ [NL])))
   \<and> split_lines (scenario_A_block @ [NL]) =
       [''from pkg import a'', ''from pkg import b'', ''from pkg.a import (foo,)'', []]
   \<and> ''from pkg import a'' \<in> set (split_lines (scenario_A_block @ [NL]))
   \<and> ''from pkg import _hidden'' \<notin> set (split_lines (scenario_A_block @ [NL]))"
proof -
  let ?sa = scenario_A_sa
  let ?fs = "scenario_A_fs (Some ''import os'') []" and ?fs2 = "scenario_A_fs None []"
  have h1: "static_parse_imports ?sa ?fs ''pkg'' None =
     Inr (''pkg'', [''a'', ''b''], [(''a'', [''foo'']), (''b'', [])])"
    by (rule scenario_A_plan)
  have p: "private_modpath ?sa ''pkg'' ''pkg/_hidden.py''"
    by (simp add: private_modpath_def rel_modname_def scenario_A_sa_def)
  have rel: "rel_modname ?sa ''pkg'' ''pkg/_hidden.py'' = ''_hidden''"
    by (simp add: rel_modname_def scenario_A_sa_def)
  have mn: "modpath_to_modname ?sa ''pkg'' = ''pkg''"
    by (simp add: scenario_A_sa_def)
  have pm: "''pkg/_hidden.py'' \<in> set (package_modpaths ?sa ''pkg'')"
    by (simp add: scenario_A_sa_def)
  have h2: "\<forall>p. \<not> private_modpath ?sa (modpath_to_modname ?sa ''pkg'') p \<longrightarrow>
      files ?fs2 p = files ?fs p"
    unfolding mn using p by (auto simp: scenario_A_fs_def)
  have h3: "initstr ''pkg'' [''a'', ''b''] [(''a'', [''foo'']), (''b'', [])] False =
      Result (scenario_A_block @ [NL])"
    by (rule scenario_A_initstr)
  have h4: "exists ?fs ''pkg''" and ex2: "exists ?fs2 ''pkg''"
    by (simp_all add: exists_def scenario_A_fs_def)
  have h5: "\<forall>x\<in>set ''pkg''. \<not> isspace x"
    and h6: "\<forall>n\<in>set [''a'', ''b'']. \<forall>x\<in>set n. \<not> isspace x"
    by (simp_all add: isspace_def)
  have sl: "split_lines (scenario_A_block @ [NL]) =
       [''from pkg import a'', ''from pkg import b'', ''from pkg.a import (foo,)'', []]"
    by (simp add: scenario_A_block_def)
  note concl = enumeration_excludes_private [OF h1 h2 h3 h5 h6]
  from concl have a: "static_parse_imports ?sa ?fs2 ''pkg'' None =
     Inr (''pkg'', [''a'', ''b''], [(''a'', [''foo'']), (''b'', [])])" by blast
  from concl h4 have b: "autogen_init ?sa ?fs ''pkg'' None True =
      Result (Inr (Printed (scenario_A_block @ [NL])))" by blast
  from concl ex2 have c: "autogen_init ?sa ?fs2 ''pkg'' None True =
      Result (Inr (Printed (scenario_A_block @ [NL])))" by blast
  from concl have "\<forall>n\<in>set [''a'', ''b''].
      ''from '' @ ''pkg'' @ '' import '' @ n \<in> set (split_lines (scenario_A_block @ [NL]))"
    by blast
  then have d: "''from pkg import a'' \<in> set (split_lines (scenario_A_block @ [NL]))" by simp
  from concl have "\<forall>p\<in>set (package_modpaths ?sa ''pkg''). private_modpath ?sa ''pkg'' p \<longrightarrow>
      ''from '' @ ''pkg'' @ '' import '' @ rel_modname ?sa ''pkg'' p
        \<notin> set (split_lines (scenario_A_block @ [NL]))"
    by blast
  with pm p have "''from '' @ ''pkg'' @ '' import '' @ rel_modname ?sa ''pkg'' ''pkg/_hidden.py''
        \<notin> set (split_lines (scenario_A_block @ [NL]))" by blast
  then have e: "''from pkg import _hidden'' \<notin> set (split_lines (scenario_A_block @ [NL]))"
    unfolding rel by simp
  from h1 p a b c sl d e show ?thesis by (intro conjI)
qed

text \<open>
  C10. With an explicit submodule list whose names all resolve to files that can be read
  and parsed, for a root name without a percent sign and without a newline and listed
  names without a newline: the plan is built, \<^verbatim>\<open>imports\<close> is the list as given
  and the plan has one entry per listed name, in order, whatever the name starts with; the
  callables of an entry are the names the parser reports for that file, without those
  that start with an underscore or contain a dot. The block is rendered and is what a dry
  run on the package directory prints; every listed name has its line \<^verbatim>\<open>from <root> import <name>\<close> in it; every
  line of the from-import of every entry is a line of the block; every line of the block
  is empty, or one of these import lines, or a line of the from-import of an entry; and
  the from-import of an entry with a callable is the one line
  \<^verbatim>\<open>from <root>.<name> import (c1, ..., cn,)\<close> when that text has only spaces as
  whitespace and at most 79 characters.
\<close>

theorem explicit_list_not_filtered:
  assumes res: "\<forall>m\<in>set given. \<exists>p src names.
      modname_to_modpath sa (modpath_to_modname sa modpath @ ''.'' @ m) = Some p
      \<and> files fs p = Some src \<and> calldefs sa (universal_newlines src) = Inr names"
    and pc: "CHR ''%'' \<notin> set (modpath_to_modname sa modpath)"
    and nlm: "NL \<notin> set (modpath_to_modname sa modpath)"
    and nlg: "\<forall>m\<in>set given. NL \<notin> set m"
  shows "\<exists>from_imports block.
      static_parse_imports sa fs modpath (Some given) =
        Inr (modpath_to_modname sa modpath, given, from_imports)
    \<and> map fst from_imports = given
    \<and> list_all2 (\<lambda>m entry. \<exists>p src names.
          modname_to_modpath sa (modpath_to_modname sa modpath @ ''.'' @ m) = Some p
          \<and> files fs p = Some src \<and> calldefs sa (universal_newlines src) = Inr names
          \<and> entry = (m, filter public_callname names)) given from_imports
    \<and> initstr (modpath_to_modname sa modpath) given from_imports False = Result block
    \<and> (exists fs modpath \<longrightarrow>
          autogen_init sa fs modpath (Some given) True = Result (Inr (Printed block)))
    \<and> (\<forall>m\<in>set given.
          ''from '' @ modpath_to_modname sa modpath @ '' import '' @ m \<in> set (split_lines block))
    \<and> (\<forall>entry\<in>set from_imports.
          \<forall>l\<in>set (fromimport_lines (fromimport_root (modpath_to_modname sa modpath)) entry).
            l \<in> set (split_lines block))
    \<and> (\<forall>l\<in>set (split_lines block).
          l = []
          \<or> (\<exists>m\<in>set given. l = ''from '' @ modpath_to_modname sa modpath @ '' import '' @ m)
          \<or> (\<exists>entry\<in>set from_imports.
                l \<in> set (fromimport_lines (fromimport_root (modpath_to_modname sa modpath)) entry)))
    \<and> (\<forall>entry\<in>set from_imports.
          snd entry \<noteq> []
          \<and> (\<forall>x\<in>set (rawstr (fromimport_root (modpath_to_modname sa modpath))
                          (fst entry) (snd entry)).
                tw_whitespace x \<longrightarrow> x = SP)
          \<and> length (rawstr (fromimport_root (modpath_to_modname sa modpath))
                      (fst entry) (snd entry)) \<le> 79 \<longrightarrow>
          fromimport_lines (fromimport_root (modpath_to_modname sa modpath)) entry =
            [rawstr (fromimport_root (modpath_to_modname sa modpath)) (fst entry) (snd entry)])"
proof -
  let ?mn = "modpath_to_modname sa modpath"
  let ?paths = "map (\<lambda>m. modname_to_modpath sa (?mn @ ''.'' @ m)) given"
  let ?xs = "zip ?paths given"
  have xs: "?xs = map (\<lambda>m. (modname_to_modpath sa (?mn @ ''.'' @ m), m)) given"
    by (induction given) simp_all
  have "\<forall>x\<in>set ?xs. \<exists>p src names. fst x = Some p \<and> files fs p = Some src
            \<and> calldefs sa (universal_newlines src) = Inr names"
    unfolding xs using res by auto
  from parse_submodules_all_ok [OF this] obtain from_imports where
    fi: "parse_submodules sa fs ?xs = Inr from_imports"
    and l2: "list_all2 (\<lambda>x entry. \<exists>p src names. fst x = Some p \<and> files fs p = Some src
            \<and> calldefs sa (universal_newlines src) = Inr names
            \<and> entry = (snd x, filter public_callname names)) ?xs from_imports"
    by blast
  have plan: "static_parse_imports sa fs modpath (Some given) = Inr (?mn, given, from_imports)"
    using fi by (simp add: static_parse_imports_def Let_def)
  from parse_submodules_Inr [OF fi] have names: "map fst from_imports = given"
    by simp
  from l2 have l2': "list_all2 (\<lambda>m entry. \<exists>p src names.
          modname_to_modpath sa (?mn @ ''.'' @ m) = Some p
          \<and> files fs p = Some src \<and> calldefs sa (universal_newlines src) = Inr names
          \<and> entry = (m, filter public_callname names)) given from_imports"
    unfolding xs by (simp add: list_all2_map1)
  obtain block where blk: "initstr ?mn given from_imports False = Result block"
    using pc by (simp add: initstr_def make_imports_str_def Let_def)
  have dry: "exists fs modpath \<longrightarrow>
      autogen_init sa fs modpath (Some given) True = Result (Inr (Printed block))"
    using plan blk by (auto intro: autogen_init_dry)
  have r0: "\<forall>m\<in>set given. ''from '' @ ?mn @ '' import '' @ m \<in> set (split_lines block)"
    using block_lines_import [OF blk _ nlm] nlg by blast
  have r1: "\<forall>entry\<in>set from_imports.
      \<forall>l\<in>set (fromimport_lines (fromimport_root ?mn) entry). l \<in> set (split_lines block)"
    using block_lines_from [OF blk] by blast
  have r2: "\<forall>l\<in>set (split_lines block).
          l = [] \<or> (\<exists>m\<in>set given. l = ''from '' @ ?mn @ '' import '' @ m)
          \<or> (\<exists>entry\<in>set from_imports.
                l \<in> set (fromimport_lines (fromimport_root ?mn) entry))"
    using block_lines_sub [OF blk nlm nlg] by blast
  have r3: "\<forall>entry\<in>set from_imports.
          snd entry \<noteq> []
          \<and> (\<forall>x\<in>set (rawstr (fromimport_root ?mn) (fst entry) (snd entry)).
                tw_whitespace x \<longrightarrow> x = SP)
          \<and> length (rawstr (fromimport_root ?mn) (fst entry) (snd entry)) \<le> 79 \<longrightarrow>
          fromimport_lines (fromimport_root ?mn) entry =
            [rawstr (fromimport_root ?mn) (fst entry) (snd entry)]"
  proof (intro ballI impI)
    fix entry :: "string \<times> string list"
    assume "snd entry \<noteq> []
          \<and> (\<forall>x\<in>set (rawstr (fromimport_root ?mn) (fst entry) (snd entry)).
                tw_whitespace x \<longrightarrow> x = SP)
          \<and> length (rawstr (fromimport_root ?mn) (fst entry) (snd entry)) \<le> 79"
    then have "fromimport_lines (fromimport_root ?mn) (fst entry, snd entry) =
            [rawstr (fromimport_root ?mn) (fst entry) (snd entry)]"
      by (intro fromimport_lines_short) simp_all
    then show "fromimport_lines (fromimport_root ?mn) entry =
            [rawstr (fromimport_root ?mn) (fst entry) (snd entry)]" by simp
  qed
  from plan names l2' blk dry r0 r1 r2 r3 show ?thesis by blast
qed

theorem explicit_list_not_filtered_witness:
  "static_parse_imports scenario_A_sa (scenario_A_fs (Some a_source) []) ''pkg''
       (Some [''_hidden'', ''a'']) =
     Inr (''pkg'', [''_hidden'', ''a''], [(''_hidden'', [''foo'']), (''a'', [''foo''])])
   \<and> autogen_init scenario_A_sa (scenario_A_fs (Some a_source) []) ''pkg''
       (Some [''_hidden'', ''a'']) True =
     Result (Inr (Printed explicit_block))
   \<and> split_lines explicit_block =
       [''from pkg import _hidden'', ''from pkg import a'',
        ''from pkg._hidden import (foo,)'', ''from pkg.a import (foo,)'']
   \<and> ''from pkg import _hidden'' \<in> set (split_lines explicit_block)
   \<and> ''from pkg._hidden import (foo,)'' \<in> set (split_lines explicit_block)"
proof -
  let ?sa = scenario_A_sa and ?fs = "scenario_A_fs (Some a_source) []"
  have mn: "modpath_to_modname ?sa ''pkg'' = ''pkg''"
    by (simp add: scenario_A_sa_def)
  have un: "universal_newlines a_source = a_source"
    by (simp add: a_source_def)
  have cd: "calldefs ?sa a_source = Inr [''foo'', ''_bar'']"
    by (simp add: scenario_A_sa_def)
  have r1: "modname_to_modpath ?sa ''pkg._hidden'' = Some ''pkg/_hidden.py''"
    and r2: "modname_to_modpath ?sa ''pkg.a'' = Some ''pkg/a.py''"
    by (simp_all add: scenario_A_sa_def)
  have f1: "files ?fs ''pkg/_hidden.py'' = Some a_source"
    and f2: "files ?fs ''pkg/a.py'' = Some a_source"
    by (simp_all add: scenario_A_fs_def)
  have pub: "filter public_callname [''foo'', ''_bar''] = [''foo'']"
    by (simp add: public_callname_def)
  have h: "\<forall>m\<in>set [''_hidden'', ''a'']. \<exists>p src names.
      modname_to_modpath ?sa (modpath_to_modname ?sa ''pkg'' @ ''.'' @ m) = Some p
      \<and> files ?fs p = Some src \<and> calldefs ?sa (universal_newlines src) = Inr names"
    unfolding mn using r1 r2 f1 f2 un cd by simp
  have ex: "exists ?fs ''pkg''"
    by (simp add: exists_def scenario_A_fs_def)
  have pc: "CHR ''%'' \<notin> set (modpath_to_modname ?sa ''pkg'')"
    and nlm: "NL \<notin> set (modpath_to_modname ?sa ''pkg'')"
    and nlg: "\<forall>m\<in>set [''_hidden'', ''a'']. NL \<notin> set m"
    unfolding mn by simp_all
  have root: "fromimport_root ''pkg'' = ''pkg''"
    by (simp add: fromimport_root_def)
  have ev: "initstr ''pkg'' [''_hidden'', ''a''] [(''_hidden'', [''foo'']), (''a'', [''foo''])] False =
      Result explicit_block"
    by code_simp
  have sl: "split_lines explicit_block =
       [''from pkg import _hidden'', ''from pkg import a'',
        ''from pkg._hidden import (foo,)'', ''from pkg.a import (foo,)'']"
    by (simp add: explicit_block_def)
  from explicit_list_not_filtered [OF h pc nlm nlg] obtain from_imports block where
    res: "static_parse_imports ?sa ?fs ''pkg'' (Some [''_hidden'', ''a'']) =
        Inr (''pkg'', [''_hidden'', ''a''], from_imports)"
    and l2: "list_all2 (\<lambda>m entry. \<exists>p src names.
          modname_to_modpath ?sa (''pkg'' @ ''.'' @ m) = Some p
          \<and> files ?fs p = Some src \<and> calldefs ?sa (universal_newlines src) = Inr names
          \<and> entry = (m, filter public_callname names)) [''_hidden'', ''a''] from_imports"
    and blk: "initstr ''pkg'' [''_hidden'', ''a''] from_imports False = Result block"
    and dry: "exists ?fs ''pkg'' \<longrightarrow>
        autogen_init ?sa ?fs ''pkg'' (Some [''_hidden'', ''a'']) True = Result (Inr (Printed block))"
    and imp: "\<forall>m\<in>set [''_hidden'', ''a''].
          ''from '' @ ''pkg'' @ '' import '' @ m \<in> set (split_lines block)"
    and short: "\<forall>entry\<in>set from_imports.
          snd entry \<noteq> []
          \<and> (\<forall>x\<in>set (rawstr (fromimport_root ''pkg'') (fst entry) (snd entry)).
                tw_whitespace x \<longrightarrow> x = SP)
          \<and> length (rawstr (fromimport_root ''pkg'') (fst entry) (snd entry)) \<le> 79 \<longrightarrow>
          fromimport_lines (fromimport_root ''pkg'') entry =
            [rawstr (fromimport_root ''pkg'') (fst entry) (snd entry)]"
    and frm: "\<forall>entry\<in>set from_imports.
          \<forall>l\<in>set (fromimport_lines (fromimport_root ''pkg'') entry). l \<in> set (split_lines block)"
    unfolding mn by blast
  from l2 have fi: "from_imports = [(''_hidden'', [''foo'']), (''a'', [''foo''])]"
    using r1 r2 f1 f2 un cd pub by (auto simp: list_all2_Cons1)
  from blk ev have b: "block = explicit_block" unfolding fi by simp
  from imp have i1: "''from pkg import _hidden'' \<in> set (split_lines explicit_block)"
    unfolding b by simp
  have raw: "rawstr ''pkg'' ''_hidden'' [''foo''] = ''from pkg._hidden import (foo,)''"
    by (simp add: rawstr_def from_module_str_def)
  from short have "fromimport_lines ''pkg'' (''_hidden'', [''foo'']) =
      [''from pkg._hidden import (foo,)'']"
    unfolding fi root by (simp add: raw tw_whitespace_def)
  with frm have i2: "''from pkg._hidden import (foo,)'' \<in> set (split_lines explicit_block)"
    unfolding fi root b by simp
  from dry ex have dry': "autogen_init ?sa ?fs ''pkg'' (Some [''_hidden'', ''a'']) True =
      Result (Inr (Printed block))" by blast
  from res dry' sl i1 i2 show ?thesis unfolding fi b by (intro conjI)
qed

subsection \<open>Running twice\<close>

text \<open>What the scan has found when it ends in explicit mode with an end marker.\<close>

lemma last_index_None: "last_index P xs = None \<longleftrightarrow> (\<forall>x\<in>set xs. \<not> P x)"
  by (induction xs) (auto split: option.splits)

lemma last_index_Some:
  assumes "last_index P xs = Some j"
  shows "j < length xs \<and> P (xs ! j) \<and> (\<forall>i. j < i \<and> i < length xs \<longrightarrow> \<not> P (xs ! i))"
  using assms
proof (induction xs arbitrary: j)
  case Nil
  then show ?case by simp
next
  case (Cons x xs)
  show ?case
  proof (cases "last_index P xs")
    case None
    with Cons.prems have j: "j = 0" and px: "P x" by (auto split: if_splits)
    from None have "\<forall>y\<in>set xs. \<not> P y" by (simp add: last_index_None)
    then have "\<forall>i. 0 < i \<and> i < length (x # xs) \<longrightarrow> \<not> P ((x # xs) ! i)"
      by (auto simp: nth_Cons split: nat.splits)
    with j px show ?thesis by simp
  next
    case (Some k)
    with Cons.prems have j: "j = Suc k" by simp
    from Cons.IH [OF Some] have k: "k < length xs" "P (xs ! k)"
      "\<forall>i. k < i \<and> i < length xs \<longrightarrow> \<not> P (xs ! i)" by simp_all
    have "\<forall>i. Suc k < i \<and> i < length (x # xs) \<longrightarrow> \<not> P ((x # xs) ! i)"
    proof (intro allI impI)
      fix i assume i: "Suc k < i \<and> i < length (x # xs)"
      then obtain i' where "i = Suc i'" by (cases i) auto
      with i k(3) show "\<not> P ((x # xs) ! i)" by simp
    qed
    with j k show ?thesis by simp
  qed
qed

lemma last_index_append:
  "last_index P (xs @ ys) =
     (case last_index P ys of Some j \<Rightarrow> Some (length xs + j) | None \<Rightarrow> last_index P xs)"
  by (induction xs) (auto split: option.splits)

lemma scan_line_indent:
  "init_indent (scan_line n line r) =
     (if is_begin line then slice_to line (find line CHR ''#'') else init_indent r)"
  by (simp add: scan_line_def Let_def is_begin_def)

lemma scan_line_begin:
  assumes "is_begin line"
  shows "explicit (scan_line n line r)" and "startline (scan_line n line r) = n + 1"
  using assms markers_exclusive [of line]
  by (auto simp: scan_line_def Let_def is_begin_def is_end_def)

lemma scan_line_not_begin:
  assumes "\<not> is_begin line"
  shows "explicit (scan_line n line r) = explicit r"
  using assms by (simp add: scan_line_def Let_def is_begin_def)

lemma scan_from_no_markers:
  assumes "explicit r" and "\<forall>l\<in>set ls. \<not> is_begin l \<and> \<not> is_end l"
  shows "scan_from n ls r = r"
  using assms
proof (induction ls arbitrary: n)
  case Nil
  show ?case by simp
next
  case (Cons l ls)
  then have "\<not> is_begin l" "\<not> is_end l" by simp_all
  with Cons.prems(1) have "scan_line n l r = r"
    by (simp add: scan_line_def Let_def is_begin_def is_end_def)
  with Cons show ?case by simp
qed

lemma scan_from_no_begin:
  assumes "explicit r" and "\<forall>l\<in>set ls. \<not> is_begin l"
  shows "explicit (scan_from n ls r) \<and> startline (scan_from n ls r) = startline r
    \<and> init_indent (scan_from n ls r) = init_indent r"
  using assms
proof (induction ls arbitrary: n r)
  case Nil
  then show ?case by simp
next
  case (Cons l ls)
  then have nb: "\<not> is_begin l" by simp
  let ?q = "scan_line n l r"
  have q: "explicit ?q" "startline ?q = startline r" "init_indent ?q = init_indent r"
    using scan_line_explicit [OF Cons.prems(1), of n l] nb by (simp_all add: scan_line_indent)
  from Cons.IH [OF q(1), of "n + 1"] Cons.prems(2) q show ?case by simp
qed

lemma scan_from_last_begin:
  assumes "last_index is_begin xs = Some j"
  shows "explicit (scan_from n xs r) \<and> startline (scan_from n xs r) = n + j + 1
    \<and> init_indent (scan_from n xs r) = slice_to (xs ! j) (find (xs ! j) CHR ''#'')"
  using assms
proof (induction xs arbitrary: n r j)
  case Nil
  then show ?case by simp
next
  case (Cons x xs)
  show ?case
  proof (cases "last_index is_begin xs")
    case None
    with Cons.prems have j: "j = 0" and bx: "is_begin x" by (auto split: if_splits)
    let ?r = "scan_line n x r"
    have ex: "explicit ?r" and st: "startline ?r = n + 1" using scan_line_begin [OF bx] by simp_all
    have ind: "init_indent ?r = slice_to x (find x CHR ''#'')" using bx by (simp add: scan_line_indent)
    from None have nob: "\<forall>l\<in>set xs. \<not> is_begin l" by (simp add: last_index_None)
    from scan_from_no_begin [OF ex nob, of "n + 1"] st ind j show ?thesis by simp
  next
    case (Some k)
    with Cons.prems have j: "j = Suc k" by simp
    from Cons.IH [OF Some, of "n + 1" "scan_line n x r"] j show ?thesis by simp
  qed
qed

lemma scan_from_not_explicit:
  assumes "\<not> explicit r" and "\<forall>l\<in>set ls. \<not> is_begin l"
  shows "\<not> explicit (scan_from n ls r)"
  using assms
proof (induction ls arbitrary: n r)
  case Nil
  then show ?case by simp
next
  case (Cons l ls)
  then have "\<not> explicit (scan_line n l r)" by (simp add: scan_line_not_begin)
  with Cons show ?case by simp
qed

lemma scan_from_endline_range:
  "endline (scan_from n ls r) = endline r
   \<or> (n \<le> endline (scan_from n ls r) \<and> endline (scan_from n ls r) < n + length ls)"
proof (induction ls arbitrary: n r)
  case Nil
  show ?case by simp
next
  case (Cons l ls)
  have "endline (scan_line n l r) = endline r \<or> endline (scan_line n l r) = n"
    by (simp add: scan_line_def Let_def)
  with Cons [of "n + 1" "scan_line n l r"] show ?case by auto
qed

lemma scan_marked:
  assumes ex: "explicit (scan L)" and e: "endline (scan L) < length L"
    and le: "startline (scan L) \<le> endline (scan L)"
  shows "0 < startline (scan L)"
    and "last_index is_begin (take (startline (scan L)) L) = Some (startline (scan L) - 1)"
    and "init_indent (scan L) =
          slice_to (L ! (startline (scan L) - 1)) (find (L ! (startline (scan L) - 1)) CHR ''#'')"
    and "\<forall>l\<in>set (drop (startline (scan L)) L). \<not> is_begin l"
    and "is_end (L ! endline (scan L))"
    and "\<forall>l\<in>set (drop (endline (scan L) + 1) L). \<not> is_end l"
proof -
  let ?init = "\<lparr>startline = 0, endline = length L, explicit = False, init_indent = []\<rparr>"
  let ?s = "startline (scan L)" and ?e = "endline (scan L)"
  have "last_index is_begin L \<noteq> None"
  proof
    assume "last_index is_begin L = None"
    then have "\<forall>l\<in>set L. \<not> is_begin l" by (simp add: last_index_None)
    then have "\<not> explicit (scan_from 0 L ?init)" by (intro scan_from_not_explicit) simp_all
    with ex show False by (simp add: scan_def)
  qed
  then obtain j where j: "last_index is_begin L = Some j" by auto
  from scan_from_last_begin [OF j, of 0 ?init] have s: "?s = j + 1"
    and ind: "init_indent (scan L) = slice_to (L ! j) (find (L ! j) CHR ''#'')"
    by (simp_all add: scan_def)
  from last_index_Some [OF j] have jl: "j < length L" and bj: "is_begin (L ! j)"
    and after: "\<forall>i. j < i \<and> i < length L \<longrightarrow> \<not> is_begin (L ! i)" by simp_all
  show "0 < ?s" using s by simp
  show "init_indent (scan L) = slice_to (L ! (?s - 1)) (find (L ! (?s - 1)) CHR ''#'')"
    using ind s by simp
  show nob: "\<forall>l\<in>set (drop ?s L). \<not> is_begin l"
  proof
    fix l assume "l \<in> set (drop ?s L)"
    then obtain i where "i < length (drop ?s L)" "l = drop ?s L ! i"
      by (auto simp: in_set_conv_nth)
    then have "l = L ! (?s + i)" "?s + i < length L" by simp_all
    with after s show "\<not> is_begin l" by simp
  qed
  have "L = take ?s L @ drop ?s L" by simp
  then have "last_index is_begin L =
      (case last_index is_begin (drop ?s L) of
         Some k \<Rightarrow> Some (length (take ?s L) + k) | None \<Rightarrow> last_index is_begin (take ?s L))"
    by (metis last_index_append)
  moreover have "last_index is_begin (drop ?s L) = None"
    using nob by (simp add: last_index_None)
  ultimately show pb: "last_index is_begin (take ?s L) = Some (?s - 1)"
    using j s by simp
  have sl: "?s \<le> length L" using s jl by simp
  from scan_from_last_begin [OF pb, of 0 ?init]
  have exp: "explicit (scan_prefix L ?s)" by (simp add: scan_prefix_def)
  have split: "scan L = scan_from ?s (drop ?s L) (scan_prefix L ?s)"
    using sl by (rule scan_split)
  have len: "length (take ?s L) = ?s" using sl by simp
  have "endline (scan_from 0 (take ?s L) ?init) = endline ?init
      \<or> endline (scan_from 0 (take ?s L) ?init) < 0 + length (take ?s L)"
    using scan_from_endline_range [of 0 "take ?s L" ?init] by blast
  then have range: "endline (scan_prefix L ?s) = length L \<or> endline (scan_prefix L ?s) < ?s"
    unfolding len scan_prefix_def by simp
  from scan_from_explicit [OF exp, of ?s "drop ?s L"]
  have ecase: "?e = (case last_index is_end (drop ?s L) of
      None \<Rightarrow> endline (scan_prefix L ?s) | Some k \<Rightarrow> ?s + k)"
    unfolding split [symmetric] by simp
  have "last_index is_end (drop ?s L) \<noteq> None"
  proof
    assume "last_index is_end (drop ?s L) = None"
    with ecase have "?e = endline (scan_prefix L ?s)" by simp
    with range e le show False by auto
  qed
  then obtain k where k: "last_index is_end (drop ?s L) = Some k" by auto
  with ecase have ek: "?e = ?s + k" by simp
  from last_index_Some [OF k] have kl: "k < length (drop ?s L)" and endk: "is_end (drop ?s L ! k)"
    and afterk: "\<forall>i. k < i \<and> i < length (drop ?s L) \<longrightarrow> \<not> is_end (drop ?s L ! i)" by simp_all
  show "is_end (L ! ?e)" using endk kl ek sl by simp
  show "\<forall>l\<in>set (drop (?e + 1) L). \<not> is_end l"
  proof
    fix l assume "l \<in> set (drop (?e + 1) L)"
    then obtain i where i: "i < length (drop (?e + 1) L)" "l = drop (?e + 1) L ! i"
      by (auto simp: in_set_conv_nth)
    then have l: "l = drop ?s L ! (k + 1 + i)" and kl': "k + 1 + i < length (drop ?s L)"
      using ek by (simp_all add: add.assoc add.commute add.left_commute)
    from afterk have "k < k + 1 + i \<and> k + 1 + i < length (drop ?s L) \<longrightarrow>
        \<not> is_end (drop ?s L ! (k + 1 + i))" by (rule spec)
    with kl' have "\<not> is_end (drop ?s L ! (k + 1 + i))" by linarith
    then show "\<not> is_end l" unfolding l .
  qed
qed

lemma un_append_left: "CR \<notin> set a \<Longrightarrow> universal_newlines (a @ b) = a @ universal_newlines b"
  by (induction a) auto

lemma un_append_right:
  assumes "CR \<notin> set b" and "a = [] \<or> last a \<noteq> CR"
  shows "universal_newlines (a @ b) = universal_newlines a @ b"
  using assms(2)
proof (induction a rule: universal_newlines.induct)
  case 1
  show ?case using assms(1) by (simp add: un_id)
next
  case (2 c cs)
  show ?case
  proof (cases "c = CR")
    case False
    with 2 show ?thesis by (cases "cs = []") (auto simp: un_id assms(1))
  next
    case True
    with "2.prems" obtain d ds where cs: "cs = d # ds" by (cases cs) auto
    show ?thesis
    proof (cases "d = NL")
      case dn: True
      from "2.prems" cs have "ds = [] \<or> last ds \<noteq> CR" by (auto split: if_splits)
      with "2.IH"(1) [OF True cs dn] True cs dn show ?thesis by simp
    next
      case dn: False
      from "2.prems" cs have "cs = [] \<or> last cs \<noteq> CR" by (auto split: if_splits)
      with "2.IH"(2) [OF True cs dn] True cs dn show ?thesis by simp
    qed
  qed
qed

lemma un_set: "set (universal_newlines t) \<subseteq> insert NL (set t)"
proof (induction t rule: universal_newlines.induct)
  case 1
  show ?case by simp
next
  case (2 c cs)
  show ?case
  proof (cases "c = CR")
    case False
    with "2.IH"(3) [OF False] show ?thesis by auto
  next
    case True
    show ?thesis
    proof (cases cs)
      case Nil
      with True show ?thesis by simp
    next
      case (Cons d ds)
      show ?thesis
      proof (cases "d = NL")
        case dn: True
        from "2.IH"(1) [OF True Cons dn] have "set (universal_newlines ds) \<subseteq> insert NL (set ds)" .
        moreover have "universal_newlines (c # cs) = NL # universal_newlines ds"
          using True Cons dn by simp
        ultimately show ?thesis using Cons by auto
      next
        case dn: False
        from "2.IH"(2) [OF True Cons dn] have "set (universal_newlines cs) \<subseteq> insert NL (set cs)" .
        moreover have "universal_newlines (c # cs) = NL # universal_newlines cs"
          using True Cons dn by simp
        ultimately show ?thesis by auto
      qed
    qed
  qed
qed

lemma un_ends_NL: "\<exists>u. universal_newlines (a @ [NL]) = u @ [NL]"
proof (induction a rule: universal_newlines.induct)
  case 1
  show ?case by simp
next
  case (2 c cs)
  show ?case
  proof (cases "c = CR")
    case False
    from "2.IH"(3) [OF False] obtain u where "universal_newlines (cs @ [NL]) = u @ [NL]" by blast
    with False have "universal_newlines ((c # cs) @ [NL]) = (c # u) @ [NL]" by simp
    then show ?thesis by blast
  next
    case True
    show ?thesis
    proof (cases cs)
      case Nil
      with True have "universal_newlines ((c # cs) @ [NL]) = [] @ [NL]" by simp
      then show ?thesis by blast
    next
      case (Cons d ds)
      show ?thesis
      proof (cases "d = NL")
        case dn: True
        from "2.IH"(1) [OF True Cons dn] obtain u where
          "universal_newlines (ds @ [NL]) = u @ [NL]" by blast
        with True Cons dn have "universal_newlines ((c # cs) @ [NL]) = (NL # u) @ [NL]" by simp
        then show ?thesis by blast
      next
        case dn: False
        from "2.IH"(2) [OF True Cons dn] obtain u where
          "universal_newlines (cs @ [NL]) = u @ [NL]" by blast
        with True Cons dn have "universal_newlines ((c # cs) @ [NL]) = (NL # u) @ [NL]" by simp
        then show ?thesis by blast
      qed
    qed
  qed
qed

lemma readlines_Nil: "readlines t = [] \<longleftrightarrow> t = []"
  by (cases t) (auto split: list.splits)

lemma readlines_append:
  "readlines ((a @ [NL]) @ b) = readlines (a @ [NL]) @ readlines b"
proof (induction a)
  case Nil
  show ?case by simp
next
  case (Cons c a)
  obtain l ls where l: "readlines (a @ [NL]) = l # ls"
    using readlines_Nil [of "a @ [NL]"] by (cases "readlines (a @ [NL])") auto
  with Cons show ?case by (auto split: list.splits)
qed

lemma readlines_no_NL: "NL \<notin> set l \<Longrightarrow> l \<noteq> [] \<Longrightarrow> readlines l = [l]"
proof (induction l)
  case Nil
  then show ?case by simp
next
  case (Cons c l)
  then show ?case by (cases "l = []") (auto split: list.splits)
qed

lemma readlines_full_line: "NL \<notin> set l \<Longrightarrow> readlines (l @ [NL]) = [l @ [NL]]"
  by (induction l) (auto split: list.splits)

lemma valid_lines_readlines: "valid_lines (readlines t)"
proof (induction t)
  case Nil
  show ?case by simp
next
  case (Cons c t)
  show ?case
  proof (cases "c = NL")
    case True
    show ?thesis
    proof (cases "readlines t")
      case Nil
      with True show ?thesis by simp
    next
      case (Cons l ls)
      with True Cons.IH Cons show ?thesis by (simp add: exI [of _ "[]"])
    qed
  next
    case False
    show ?thesis
    proof (cases "readlines t")
      case Nil
      with False show ?thesis by simp
    next
      case l: (Cons l ls)
      show ?thesis
      proof (cases ls)
        case Nil
        with l False Cons.IH show ?thesis by (cases l) auto
      next
        case (Cons l' ls')
        with l Cons.IH obtain u where u: "l = u @ [NL]" "NL \<notin> set u" and v: "valid_lines (l' # ls')"
          by auto
        from u False have "c # l = (c # u) @ [NL] \<and> NL \<notin> set (c # u)" by simp
        then have "\<exists>u. c # l = u @ [NL] \<and> NL \<notin> set u" by blast
        with l Cons False v show ?thesis by simp
      qed
    qed
  qed
qed

lemma valid_lines_drop: "valid_lines ls \<Longrightarrow> valid_lines (drop k ls)"
proof (induction ls arbitrary: k rule: valid_lines.induct)
  case 1
  then show ?case by simp
next
  case (2 l)
  then show ?case by (cases k) simp_all
next
  case (3 l l' ls)
  then show ?case by (cases k) simp_all
qed

lemma valid_lines_take_full:
  assumes "valid_lines ls" and "k < length ls"
  shows "\<forall>l\<in>set (take k ls). \<exists>u. l = u @ [NL] \<and> NL \<notin> set u"
  using assms
proof (induction ls arbitrary: k rule: valid_lines.induct)
  case 1
  then show ?case by simp
next
  case (2 l)
  then show ?case by simp
next
  case (3 l l' ls)
  show ?case
  proof (cases k)
    case 0
    then show ?thesis by simp
  next
    case (Suc k')
    with "3.prems" have "k' < length (l' # ls)" by simp
    from "3.IH" [OF _ this] "3.prems"(1) have "\<forall>x\<in>set (take k' (l' # ls)). \<exists>u. x = u @ [NL] \<and> NL \<notin> set u"
      by simp
    with "3.prems"(1) Suc show ?thesis by simp
  qed
qed

lemma readlines_full_lines:
  assumes "\<forall>l\<in>set P. \<exists>u. l = u @ [NL] \<and> NL \<notin> set u"
  shows "readlines (concat P @ x) = P @ readlines x"
  using assms
proof (induction P)
  case Nil
  show ?case by simp
next
  case (Cons l P)
  then obtain u where u: "l = u @ [NL]" "NL \<notin> set u" by auto
  have "readlines (concat (l # P) @ x) = readlines ((u @ [NL]) @ (concat P @ x))"
    using u by simp
  also have "\<dots> = readlines (u @ [NL]) @ readlines (concat P @ x)"
    by (rule readlines_append)
  also have "\<dots> = l # P @ readlines x"
    using Cons u by (simp add: readlines_full_line)
  finally show ?case by simp
qed

lemma rstrip_idem: "rstrip (rstrip s) = rstrip s"
proof (cases "rstrip s = []")
  case True
  then show ?thesis by (simp add: rstrip_def)
next
  case False
  with rstrip_last [of s] have "\<not> isspace (last (rstrip s))" by simp
  with False have "dropWhile isspace (rev (rstrip s)) = rev (rstrip s)"
    by (cases "rev (rstrip s)") (auto simp: last_rev)
  then show ?thesis by (simp add: rstrip_def)
qed

lemma rstrip_all_space: "list_all isspace s \<Longrightarrow> rstrip s = []"
  using rstrip_blank [of s "[]"] by (simp add: rstrip_def)

lemma lstrip_rstrip: "lstrip (rstrip l) = rstrip (lstrip l)"
proof (cases "dropWhile isspace l = []")
  case True
  then have "list_all isspace l" by (simp add: list_all_iff)
  then have b: "rstrip l = []" by (rule rstrip_all_space)
  from True have a: "lstrip l = []" by (simp add: lstrip_def)
  show ?thesis unfolding a b by (simp add: lstrip_def rstrip_def)
next
  case False
  let ?a = "takeWhile isspace l" and ?b = "dropWhile isspace l"
  have l: "l = ?a @ ?b" by simp
  from False have hb: "\<not> isspace (hd ?b)" by (rule hd_dropWhile)
  with False have nb: "\<not> list_all isspace ?b" by (cases ?b) auto
  have r: "rstrip l = ?a @ rstrip ?b"
    using rstrip_append [OF nb, of ?a] by simp
  obtain ws where ws: "list_all isspace ws" "rstrip ?b @ ws = ?b"
    using rstrip_decomp by blast
  have ne: "rstrip ?b \<noteq> []"
  proof
    assume "rstrip ?b = []"
    with ws have "list_all isspace ?b" by simp
    with nb show False by simp
  qed
  with ws(2) have "hd (rstrip ?b) = hd ?b" by (metis hd_append2)
  with hb have "\<not> isspace (hd (rstrip ?b))" by simp
  with ne have "dropWhile isspace (rstrip ?b) = rstrip ?b" by (cases "rstrip ?b") auto
  moreover have "dropWhile isspace (?a @ rstrip ?b) = dropWhile isspace (rstrip ?b)"
    by (intro dropWhile_append2) (auto dest: set_takeWhileD)
  ultimately have "lstrip (rstrip l) = rstrip ?b" unfolding r by (simp add: lstrip_def)
  then show ?thesis by (simp add: lstrip_def)
qed

lemma strip_rstrip: "strip (rstrip l) = strip l"
  by (simp add: strip_def lstrip_rstrip rstrip_idem)

lemma marker_rstrip: "is_begin (rstrip l) = is_begin l" "is_end (rstrip l) = is_end l"
  by (simp_all add: is_begin_def is_end_def strip_rstrip)

lemma set_strip: "set (strip l) \<subseteq> set l"
proof -
  have "set (rstrip s) \<subseteq> set s" for s
    unfolding rstrip_def using set_dropWhileD [of _ isspace "rev s"] by auto
  moreover have "set (lstrip l) \<subseteq> set l"
    unfolding lstrip_def using set_dropWhileD [of _ isspace l] by auto
  ultimately show ?thesis unfolding strip_def by blast
qed

lemma marker_has_hash:
  assumes "is_begin l \<or> is_end l"
  shows "CHR ''#'' \<in> set l"
proof -
  from assms obtain t where "strip l = begin_marker @ t \<or> strip l = end_marker @ t"
    by (auto simp: is_begin_def is_end_def startswith_prefix prefix_def)
  then have "CHR ''#'' \<in> set (strip l)"
    by (auto simp: begin_marker_def end_marker_def)
  with set_strip show ?thesis by blast
qed

lemma hash_not_space: "\<not> isspace CHR ''#''"
  by (simp add: isspace_def)

lemma rstrip_no_NL:
  assumes "NL \<notin> set (butlast l)"
  shows "NL \<notin> set (rstrip l)"
proof -
  obtain ws where ws: "list_all isspace ws" "rstrip l @ ws = l"
    using rstrip_decomp by blast
  show ?thesis
  proof (cases "ws = []")
    case True
    with ws have eq: "rstrip l = l" by simp
    show ?thesis
    proof (cases "l = []")
      case True
      with eq show ?thesis by simp
    next
      case False
      with rstrip_last [of l] eq have "\<not> isspace (last l)" by simp
      then have "last l \<noteq> NL" by (auto simp: isspace_def)
      moreover have "set l = insert (last l) (set (butlast l))"
        using False by (metis append_butlast_last_id list.simps(15) rotate1.simps(2) set_rotate1)
      ultimately show ?thesis using assms eq by auto
    qed
  next
    case False
    with ws(2) have "butlast l = rstrip l @ butlast ws" by (metis butlast_append)
    with assms show ?thesis by auto
  qed
qed

lemma readlines_rstrip_line:
  assumes "NL \<notin> set (butlast l)"
  shows "readlines (rstrip l) = (if rstrip l = [] then [] else [rstrip l])"
  using rstrip_no_NL [OF assms] by (simp add: readlines_no_NL)

lemma readlines_rstrip_lines:
  assumes "valid_lines S"
  shows "length (readlines (rstrip (concat S))) \<le> length S
    \<and> list_all2 (\<lambda>a b. a = b \<or> a = rstrip b)
        (readlines (rstrip (concat S))) (take (length (readlines (rstrip (concat S)))) S)"
  using assms
proof (induction S rule: valid_lines.induct)
  case 1
  show ?case by (simp add: rstrip_def)
next
  case (2 l)
  then have "NL \<notin> set (butlast l)" by simp
  from readlines_rstrip_line [OF this] show ?case by simp
next
  case (3 l l' ls)
  then obtain u where u: "l = u @ [NL]" "NL \<notin> set u" and v: "valid_lines (l' # ls)" by auto
  let ?X = "concat (l' # ls)"
  show ?case
  proof (cases "list_all isspace ?X")
    case True
    then have "rstrip (concat (l # l' # ls)) = rstrip l"
      using rstrip_blank [of ?X l] by simp
    moreover have "NL \<notin> set (butlast l)" using u by simp
    ultimately show ?thesis using readlines_rstrip_line [of l] by simp
  next
    case False
    then have "rstrip (concat (l # l' # ls)) = (u @ [NL]) @ rstrip ?X"
      using rstrip_append [of ?X l] u by simp
    moreover have "readlines ((u @ [NL]) @ rstrip ?X) = readlines (u @ [NL]) @ readlines (rstrip ?X)"
      by (rule readlines_append)
    moreover have "readlines (u @ [NL]) = [l]"
      using u readlines_full_line [of u] by simp
    ultimately have "readlines (rstrip (concat (l # l' # ls))) = l # readlines (rstrip ?X)"
      by simp
    with "3.IH" [OF v] show ?thesis by simp
  qed
qed

lemma find_from_eq:
  "find_from i c x = (if c \<in> set x then i + int (length (takeWhile (\<lambda>d. d \<noteq> c) x)) else - 1)"
proof (induction x arbitrary: i)
  case Nil
  show ?case by simp
next
  case (Cons d x)
  show ?case
  proof (cases "d = c")
    case True
    then show ?thesis by simp
  next
    case False
    then have "find_from i c (d # x) = find_from (i + 1) c x" by simp
    also have "\<dots> = (if c \<in> set x then i + 1 + int (length (takeWhile (\<lambda>d. d \<noteq> c) x)) else - 1)"
      by (rule Cons)
    also have "\<dots> = (if c \<in> set (d # x)
        then i + int (length (takeWhile (\<lambda>d. d \<noteq> c) (d # x))) else - 1)"
      using False by simp
    finally show ?thesis .
  qed
qed

lemma scan_marked_region:
  assumes pb: "last_index is_begin P = Some j"
    and nomB: "\<forall>l\<in>set B. \<not> is_begin l \<and> \<not> is_end l"
    and l'end: "is_end l'"
    and nomR: "\<forall>l\<in>set R. \<not> is_begin l \<and> \<not> is_end l"
  shows "startline (scan (P @ B @ l' # R)) = j + 1"
    and "endline (scan (P @ B @ l' # R)) = length P + length B"
    and "init_indent (scan (P @ B @ l' # R)) = slice_to (P ! j) (find (P ! j) CHR ''#'')"
proof -
  let ?init = "\<lparr>startline = 0, endline = length (P @ B @ l' # R), explicit = False, init_indent = []\<rparr>"
  let ?r1 = "scan_from 0 P ?init"
  from scan_from_last_begin [OF pb, of 0 ?init]
  have r1: "explicit ?r1" "startline ?r1 = j + 1"
    "init_indent ?r1 = slice_to (P ! j) (find (P ! j) CHR ''#'')"
    by simp_all
  have r2: "scan_from (length P) B ?r1 = ?r1"
    using r1(1) nomB by (rule scan_from_no_markers)
  let ?n = "length P + length B"
  let ?r3 = "scan_line ?n l' ?r1"
  from l'end have l'begin: "\<not> is_begin l'" using markers_exclusive by blast
  have r3: "explicit ?r3" "startline ?r3 = j + 1" "endline ?r3 = ?n"
    "init_indent ?r3 = slice_to (P ! j) (find (P ! j) CHR ''#'')"
    using scan_line_explicit [OF r1(1), of ?n l'] l'end l'begin r1(2,3)
    by (simp_all add: scan_line_indent)
  have r4: "scan_from (?n + 1) R ?r3 = ?r3"
    using r3(1) nomR by (rule scan_from_no_markers)
  have "scan (P @ B @ l' # R) = scan_from (?n + 1) R (scan_line ?n l' (scan_from (length P) B ?r1))"
    by (simp add: scan_def scan_from_append)
  then have sc: "scan (P @ B @ l' # R) = ?r3"
    unfolding r2 r4 .
  show "startline (scan (P @ B @ l' # R)) = j + 1"
    and "endline (scan (P @ B @ l' # R)) = length P + length B"
    and "init_indent (scan (P @ B @ l' # R)) = slice_to (P ! j) (find (P ! j) CHR ''#'')"
    unfolding sc using r3 by simp_all
qed

lemma slice_find_no_char: "c \<notin> set (slice_to x (find x c))"
proof (cases "c \<in> set x")
  case True
  then have "find x c = int (length (takeWhile (\<lambda>d. d \<noteq> c) x))"
    by (simp add: find_def find_from_eq)
  then have "slice_to x (find x c) = take (length (takeWhile (\<lambda>d. d \<noteq> c) x)) x"
    by (simp add: slice_to_def)
  also have "\<dots> = takeWhile (\<lambda>d. d \<noteq> c) x"
    by (rule takeWhile_eq_take [symmetric])
  finally show ?thesis by (auto dest: set_takeWhileD)
next
  case False
  then show ?thesis by (auto simp: slice_to_def dest: in_set_takeD)
qed

lemma set_replace_nl: "set (replace_nl r s) \<subseteq> set r \<union> set s"
  by (induction s) (auto simp: replace_nl_def)

lemma no_hash_no_marker: "CHR ''#'' \<notin> set l \<Longrightarrow> \<not> is_begin l \<and> \<not> is_end l"
  using marker_has_hash by blast

lemma new_text_idempotent:
  assumes ex: "explicit (scan L)" and e: "endline (scan L) < length L"
    and L: "L = readlines (universal_newlines raw)"
    and nt: "new_text L block = Inr out"
    and nohash: "CHR ''#'' \<notin> set block"
  shows "new_text (readlines (universal_newlines out)) block = Inr out"
proof -
  let ?s = "startline (scan L)" and ?e = "endline (scan L)" and ?ind = "init_indent (scan L)"
  let ?P = "take ?s L" and ?S = "drop ?e L"
  let ?blk = "indent block ?ind @ [NL]"
  from new_text_Inr [OF nt] have le: "?s \<le> ?e"
    and out: "out = rstrip (concat ?P @ ?blk @ concat ?S)" by simp_all
  note m = scan_marked [OF ex e le]
  have lenP: "length ?P = ?s" using le e by simp
  have vl: "valid_lines L" unfolding L by (rule valid_lines_readlines)
  have Pfull: "\<forall>l\<in>set ?P. \<exists>u. l = u @ [NL] \<and> NL \<notin> set u"
    using vl le e by (intro valid_lines_take_full) simp_all
  have "concat L = universal_newlines raw" unfolding L by (rule concat_readlines)
  then have noCR: "CR \<notin> set (concat L)" by (simp only: un_no_CR not_False_eq_True)
  have subP: "set (concat ?P) \<subseteq> set (concat L)" and subS: "set (concat ?S) \<subseteq> set (concat L)"
    by (auto dest: in_set_takeD in_set_dropD)
  have S: "?S = L ! ?e # drop (?e + 1) L" using e by (simp add: Cons_nth_drop_Suc)
  have "CHR ''#'' \<in> set (L ! ?e)" using m(5) by (intro marker_has_hash) simp
  then have hashS: "CHR ''#'' \<in> set (concat ?S)" unfolding S by simp
  then have nbS: "\<not> list_all isspace (concat ?S)"
    using hash_not_space by (auto simp: list_all_iff)
  define T where "T = rstrip (concat ?S)"
  have out': "out = concat ?P @ ?blk @ T"
    unfolding out T_def using rstrip_append [OF nbS, of "concat ?P @ ?blk"] by simp
  obtain ws where ws: "list_all isspace ws" "T @ ws = concat ?S"
    unfolding T_def using rstrip_decomp by blast
  have hashT: "CHR ''#'' \<in> set T"
  proof -
    from hashS ws(2) have "CHR ''#'' \<in> set T \<or> CHR ''#'' \<in> set ws" by (metis Un_iff set_append)
    with ws(1) hash_not_space show ?thesis by (auto simp: list_all_iff)
  qed
  then have nbT: "\<not> list_all isspace T" using hash_not_space by (auto simp: list_all_iff)
  have "set T \<subseteq> set (concat ?S)" using ws(2) by (metis Un_upper1 set_append)
  with subS noCR have crT: "CR \<notin> set T" by blast
  from subP noCR have crP: "CR \<notin> set (concat ?P)" by blast
  obtain u' where u': "universal_newlines (indent block ?ind @ [NL]) = u' @ [NL]"
    using un_ends_NL by blast
  have "universal_newlines out = concat ?P @ universal_newlines (?blk @ T)"
    unfolding out' using crP by (rule un_append_left)
  also have "universal_newlines (?blk @ T) = universal_newlines ?blk @ T"
    using crT by (intro un_append_right) simp_all
  finally have text': "universal_newlines out = concat ?P @ (u' @ [NL]) @ T"
    unfolding u' by simp
  let ?B = "readlines (u' @ [NL])" and ?S' = "readlines T"
  have L': "readlines (universal_newlines out) = ?P @ ?B @ ?S'"
    unfolding text' readlines_full_lines [OF Pfull] readlines_append ..
  text \<open>the block has no marker\<close>
  have "CHR ''#'' \<notin> set ?ind" unfolding m(3) by (rule slice_find_no_char)
  with nohash have "CHR ''#'' \<notin> set ?blk"
    using set_replace_nl [of "NL # ?ind" block] by (auto simp: indent_def)
  with un_set [of ?blk] have "CHR ''#'' \<notin> set (u' @ [NL])" unfolding u' by auto
  then have "CHR ''#'' \<notin> set (concat ?B)" by (simp only: concat_readlines not_False_eq_True)
  then have nomB: "\<forall>l\<in>set ?B. \<not> is_begin l \<and> \<not> is_end l"
    by (auto intro!: no_hash_no_marker)
  text \<open>the lines after the block\<close>
  have vS: "valid_lines ?S" using vl by (rule valid_lines_drop)
  from readlines_rstrip_lines [OF vS] have lenS': "length ?S' \<le> length ?S"
    and rel: "list_all2 (\<lambda>a b. a = b \<or> a = rstrip b) ?S' (take (length ?S') ?S)"
    unfolding T_def by simp_all
  have mark: "is_begin (?S' ! i) = is_begin (?S ! i) \<and> is_end (?S' ! i) = is_end (?S ! i)"
    if "i < length ?S'" for i
  proof -
    from rel that have "?S' ! i = take (length ?S') ?S ! i \<or> ?S' ! i = rstrip (take (length ?S') ?S ! i)"
      by (auto simp: list_all2_conv_all_nth)
    with that have "?S' ! i = ?S ! i \<or> ?S' ! i = rstrip (?S ! i)" by simp
    then show ?thesis by (auto simp: marker_rstrip)
  qed
  have neT: "T \<noteq> []" using hashT by auto
  then have "?S' \<noteq> []" by (simp add: readlines_Nil)
  then obtain l' R' where S': "?S' = l' # R'" by (cases ?S') auto
  have l'end: "is_end l'" using mark [of 0] S' S m(5) by simp
  then have l'begin: "\<not> is_begin l'" using markers_exclusive by blast
  have nomR: "\<forall>l\<in>set R'. \<not> is_begin l \<and> \<not> is_end l"
  proof
    fix l assume "l \<in> set R'"
    then obtain i where i: "i < length R'" "l = R' ! i" by (auto simp: in_set_conv_nth)
    then have i': "Suc i < length ?S'" and l: "l = ?S' ! Suc i" using S' by simp_all
    with lenS' have iS: "Suc i < length ?S" by simp
    have Si: "?S ! Suc i = drop (?e + 1) L ! i" unfolding S by simp
    have "i < length (drop (?e + 1) L)" using iS by simp
    then have in1: "?S ! Suc i \<in> set (drop (?e + 1) L)" unfolding Si by (rule nth_mem)
    then have ne: "\<not> is_end (?S ! Suc i)" using m(6) by blast
    have "set (drop (?e + 1) L) \<subseteq> set (drop ?s L)"
      using le by (metis add_leD1 le_add1 set_drop_subset_set_drop trans_le_add1)
    with in1 m(4) have nb: "\<not> is_begin (?S ! Suc i)" by blast
    from mark [OF i'] ne nb show "\<not> is_begin l \<and> \<not> is_end l" unfolding l by simp
  qed
  text \<open>the second scan\<close>
  from scan_marked_region [OF m(2) nomB l'end nomR] m(1)
  have sc: "startline (scan (?P @ ?B @ l' # R')) = ?s"
    "endline (scan (?P @ ?B @ l' # R')) = length ?P + length ?B"
    "init_indent (scan (?P @ ?B @ l' # R')) = slice_to (?P ! (?s - 1)) (find (?P ! (?s - 1)) CHR ''#'')"
    by simp_all
  have "?P ! (?s - 1) = L ! (?s - 1)" using m(1) by simp
  with sc(3) m(3) have sci: "init_indent (scan (?P @ ?B @ l' # R')) = ?ind" by simp
  have tk: "take ?s (?P @ ?B @ l' # R') = ?P" using lenP by simp
  have dr: "drop (length ?P + length ?B) (?P @ ?B @ l' # R') = l' # R'" by simp
  have "new_text (?P @ ?B @ l' # R') block = Inr (rstrip (concat ?P @ ?blk @ concat (l' # R')))"
    unfolding new_text_def Let_def sc(1,2) sci tk dr using lenP by simp
  also have "concat (l' # R') = T" unfolding S' [symmetric] by (rule concat_readlines)
  also have "rstrip (concat ?P @ ?blk @ T) = out"
    unfolding out' [symmetric] unfolding out by (rule rstrip_idem)
  finally show ?thesis unfolding L' S' .
qed

lemma markers_found:
  assumes ij: "i < j" and j: "j < length L" and b: "is_begin (L ! i)" and e: "is_end (L ! j)"
  shows "explicit (scan L)" and "endline (scan L) < length L"
proof -
  let ?init = "\<lparr>startline = 0, endline = length L, explicit = False, init_indent = []\<rparr>"
  have i: "i < length L" using ij j by simp
  have "L ! i \<in> set (take (i + 1) L)"
    using i by (metis add.commute in_set_conv_nth length_take lessI min.absorb2 nth_take
        plus_1_eq_Suc Suc_leI)
  with b have "last_index is_begin (take (i + 1) L) \<noteq> None"
    by (auto simp: last_index_None)
  then obtain k where "last_index is_begin (take (i + 1) L) = Some k" by auto
  from scan_from_last_begin [OF this, of 0 ?init]
  have exp: "explicit (scan_prefix L (i + 1))" by (simp add: scan_prefix_def)
  have split: "scan L = scan_from (i + 1) (drop (i + 1) L) (scan_prefix L (i + 1))"
    using i by (intro scan_split) simp
  from scan_from_explicit [OF exp, of "i + 1" "drop (i + 1) L"]
  have ex: "explicit (scan L)"
    and en: "endline (scan L) = (case last_index is_end (drop (i + 1) L) of
        None \<Rightarrow> endline (scan_prefix L (i + 1)) | Some k \<Rightarrow> i + 1 + k)"
    unfolding split [symmetric] by simp_all
  show "explicit (scan L)" by (rule ex)
  have "j - (i + 1) < length (drop (i + 1) L)" using ij j by simp
  then have "drop (i + 1) L ! (j - (i + 1)) \<in> set (drop (i + 1) L)" by (rule nth_mem)
  moreover have "drop (i + 1) L ! (j - (i + 1)) = L ! j" using ij j by simp
  ultimately have "L ! j \<in> set (drop (i + 1) L)" by simp
  with e have "last_index is_end (drop (i + 1) L) \<noteq> None" by (auto simp: last_index_None)
  then obtain k where k: "last_index is_end (drop (i + 1) L) = Some k" by auto
  from last_index_Some [OF k] have "k < length (drop (i + 1) L)" by simp
  with en k show "endline (scan L) < length L" by simp
qed

lemma autogen_init_write_idempotent:
  assumes w: "autogen_init_write fs modpath block = Inr fs'"
    and raw: "files fs (path_join modpath ''__init__.py'') = Some raw"
    and ij: "i < j" and j: "j < length (readlines (universal_newlines raw))"
    and b: "is_begin (readlines (universal_newlines raw) ! i)"
    and e: "is_end (readlines (universal_newlines raw) ! j)"
    and nohash: "CHR ''#'' \<notin> set block"
  shows "autogen_init_write fs' modpath block = Inr fs'"
    and "exists fs' = exists fs"
proof -
  let ?p = "path_join modpath ''__init__.py''"
  let ?L = "readlines (universal_newlines raw)"
  have rd: "open_read fs (Some ?p) = Inr (universal_newlines raw)"
    by (simp add: open_read_def raw)
  have exi: "exists fs ?p" by (simp add: exists_def raw)
  from w obtain out where nt: "new_text ?L block = Inr out" and fs': "fs' = open_write fs ?p out"
    by (auto simp: autogen_init_write_def Let_def rd exi split: sum.splits)
  from markers_found [OF ij j b e] have m: "explicit (scan ?L)" "endline (scan ?L) < length ?L" .
  from new_text_idempotent [OF m refl nt nohash]
  have nt': "new_text (readlines (universal_newlines out)) block = Inr out" .
  have f': "files fs' ?p = Some out" by (simp add: fs' open_write_def)
  then have rd': "open_read fs' (Some ?p) = Inr (universal_newlines out)"
    by (simp add: open_read_def)
  have exi': "exists fs' ?p" by (simp add: exists_def f')
  have same: "open_write fs' ?p out = fs'" by (simp add: fs' open_write_def)
  show "autogen_init_write fs' modpath block = Inr fs'"
    by (simp add: autogen_init_write_def Let_def rd' exi' nt' same)
  show "exists fs' = exists fs"
    by (rule ext) (simp add: exists_def fs' open_write_def raw)
qed

lemma set_expandtabs: "set (expandtabs_from col s) \<subseteq> insert SP (set s)"
proof (induction s arbitrary: col)
  case Nil
  show ?case by simp
next
  case (Cons c s)
  show ?case
  proof (cases "c = TAB")
    case True
    with Cons [of "col + (8 - col mod 8)"] show ?thesis by auto
  next
    case False
    with Cons [of "if c = NL \<or> c = CR then 0 else col + 1"] show ?thesis by auto
  qed
qed

lemma set_munge: "set (munge_whitespace s) \<subseteq> insert SP (set s)"
  using set_expandtabs [of 0 s] by (auto simp: munge_whitespace_def)

lemma set_wrap_chunks:
  "set (concat (wrap_chunks width [] (replicate n SP) [] chunks)) \<subseteq> insert SP (set (concat chunks))"
proof -
  from wrap_chunks_groups [of width "[]" "replicate n SP" "[]" chunks] obtain groups where
    w: "wrap_chunks width [] (replicate n SP) [] chunks = map render_group groups"
    and ind: "map fst groups = line_indents [] (replicate n SP) (length groups)"
    and sub: "set (concat (map snd groups)) \<subseteq> set chunks"
    by auto
  have "set (render_group g) \<subseteq> insert SP (set (concat chunks))" if g: "g \<in> set groups" for g
  proof -
    from g have "fst g \<in> set (map fst groups)" by simp
    then have "fst g \<in> set (line_indents [] (replicate n SP) (length groups))" unfolding ind .
    then have "fst g = [] \<or> fst g = replicate n SP"
      by (cases "length groups") (auto simp: line_indents_def)
    then have 1: "set (fst g) \<subseteq> {SP}" by auto
    from sub g have "set (snd g) \<subseteq> set chunks" by auto
    then have 2: "set (concat (snd g)) \<subseteq> set (concat chunks)" by auto
    from 1 2 show ?thesis by (auto simp: render_group_def)
  qed
  then show ?thesis unfolding w by auto
qed

lemma set_join_sub:
  assumes "set sep \<subseteq> A" and "\<forall>x\<in>set xs. set x \<subseteq> A"
  shows "set (join sep xs) \<subseteq> A"
  using set_join [of sep xs] assms by blast

lemma hash_literals:
  "CHR ''#'' \<notin> set ''from ''" "CHR ''#'' \<notin> set '' import ''" "CHR ''#'' \<notin> set '' import (''"
  "CHR ''#'' \<notin> set '', ''" "CHR ''#'' \<notin> set '',)''" "CHR ''#'' \<notin> set ''.''"
  "CHR ''#'' \<noteq> SP" "CHR ''#'' \<noteq> NL"
  by simp_all

lemma pack_fromimport_no_hash:
  assumes "CHR ''#'' \<notin> set root" and "CHR ''#'' \<notin> set name" and "\<forall>c\<in>set fromlist. CHR ''#'' \<notin> set c"
  shows "CHR ''#'' \<notin> set (pack_fromimport root (name, fromlist))"
proof -
  let ?raw = "rawstr root name fromlist"
  let ?np = "replicate (length (from_module_str root name)) SP"
  have "set (join '', '' fromlist) \<subseteq> - {CHR ''#''}"
    using assms(3) by (intro set_join_sub) auto
  with assms(1,2) have raw: "CHR ''#'' \<notin> set ?raw"
    by (auto simp: rawstr_def from_module_str_def)
  have p: "pack_fromimport root (name, fromlist) =
      join [NL] (wrap_chunks 79 [] ?np [] (split_chunks (munge_whitespace ?raw)))"
    by (simp add: pack_fromimport_unfold fromimport_lines_def textwrap_wrap_def)
  have "set (concat (wrap_chunks 79 [] ?np [] (split_chunks (munge_whitespace ?raw))))
      \<subseteq> insert SP (set (munge_whitespace ?raw))"
    using set_wrap_chunks [of 79 _ "split_chunks (munge_whitespace ?raw)"]
    by (simp only: concat_split_chunks)
  with set_munge [of ?raw] raw
  have "\<forall>l\<in>set (wrap_chunks 79 [] ?np [] (split_chunks (munge_whitespace ?raw))). set l \<subseteq> - {CHR ''#''}"
    by auto
  then have "set (pack_fromimport root (name, fromlist)) \<subseteq> - {CHR ''#''}"
    unfolding p by (intro set_join_sub) auto
  then show ?thesis by auto
qed

lemma initstr_no_hash:
  assumes m: "CHR ''#'' \<notin> set modname"
    and i: "\<forall>n\<in>set imports. CHR ''#'' \<notin> set n"
    and f: "\<forall>entry\<in>set from_imports. CHR ''#'' \<notin> set (fst entry) \<and> (\<forall>c\<in>set (snd entry). CHR ''#'' \<notin> set c)"
    and r: "initstr modname imports from_imports False = Result block"
  shows "CHR ''#'' \<notin> set block"
proof -
  define fromimport_str where "fromimport_str = make_fromimport_str from_imports modname"
  from r obtain import_str where
    imp: "make_imports_str imports modname = Result import_str"
    and b: "block = join [NL] (filter (\<lambda>s. length s > 0) [[], import_str, fromimport_str])"
    by (auto simp: initstr_def fromimport_str_def Let_def split: outcome.splits)
  from imp have "import_str = join [NL] (map (\<lambda>name. ''from '' @ modname @ '' import '' @ name) imports)"
    by (auto simp: make_imports_str_def split: if_splits)
  moreover have "set (join [NL] (map (\<lambda>name. ''from '' @ modname @ '' import '' @ name) imports))
      \<subseteq> - {CHR ''#''}"
    using m i by (intro set_join_sub) auto
  ultimately have 1: "set import_str \<subseteq> - {CHR ''#''}" by simp
  let ?root = "if modname = ''.'' then [] else modname"
  have root: "CHR ''#'' \<notin> set ?root" using m by simp
  have fr: "fromimport_str = join [NL] (map (pack_fromimport ?root) from_imports)"
    by (simp add: fromimport_str_def make_fromimport_str_def Let_def)
  have "\<forall>p\<in>set (map (pack_fromimport ?root) from_imports). set p \<subseteq> - {CHR ''#''}"
  proof
    fix p assume "p \<in> set (map (pack_fromimport ?root) from_imports)"
    then obtain entry where
      en: "entry \<in> set from_imports" "p = pack_fromimport ?root entry"
      by auto
    obtain name fromlist where e: "entry = (name, fromlist)" by (cases entry)
    from f en(1) e have "CHR ''#'' \<notin> set name" "\<forall>c\<in>set fromlist. CHR ''#'' \<notin> set c" by auto
    from pack_fromimport_no_hash [OF root this] show "set p \<subseteq> - {CHR ''#''}"
      unfolding en(2) e by auto
  qed
  then have 2: "set fromimport_str \<subseteq> - {CHR ''#''}"
    unfolding fr by (intro set_join_sub) auto
  have "set block \<subseteq> - {CHR ''#''}"
    unfolding b using 1 2 by (intro set_join_sub) auto
  then show ?thesis by auto
qed

lemma static_parse_imports_other_file:
  assumes "Some q \<notin> set (import_paths sa modpath imports)"
    and "\<forall>p. p \<noteq> q \<longrightarrow> files fs2 p = files fs p"
  shows "static_parse_imports sa fs2 modpath imports = static_parse_imports sa fs modpath imports"
proof -
  obtain names paths where np:
    "(case imports of
        Some given \<Rightarrow> (given, map (\<lambda>m. modname_to_modpath sa (modpath_to_modname sa modpath @ ''.'' @ m)) given)
      | None \<Rightarrow> enumerate_submodules sa (modpath_to_modname sa modpath) (package_modpaths sa modpath))
     = (names, paths)"
    by (cases "case imports of
        Some given \<Rightarrow> (given, map (\<lambda>m. modname_to_modpath sa (modpath_to_modname sa modpath @ ''.'' @ m)) given)
      | None \<Rightarrow> enumerate_submodules sa (modpath_to_modname sa modpath) (package_modpaths sa modpath)")
  then have paths: "paths = import_paths sa modpath imports"
    by (auto simp: import_paths_def split: option.splits)
  have "\<forall>x\<in>set (zip paths names). open_read fs2 (fst x) = open_read fs (fst x)"
  proof
    fix x assume "x \<in> set (zip paths names)"
    then have "(fst x, snd x) \<in> set (zip paths names)" by simp
    then have "fst x \<in> set paths" by (rule set_zip_leftD)
    with assms(1) paths have "fst x \<noteq> Some q" by auto
    with assms(2) show "open_read fs2 (fst x) = open_read fs (fst x)"
      by (cases "fst x") (auto simp: open_read_def)
  qed
  then have "parse_submodules sa fs2 (zip paths names) = parse_submodules sa fs (zip paths names)"
    by (rule parse_submodules_cong)
  then show ?thesis
    unfolding static_parse_imports_def Let_def np by simp
qed

text \<open>
  C8. Let a run of \<^verbatim>\<open>autogen_init\<close> (not dry) on a package succeed and write the init file,
  where the init file had a begin marker line and, after it, an end marker line; the init
  file is not itself one of the submodule files the plan reads, and no name of the plan
  contains the character \<^verbatim>\<open>#\<close>. Then a second run on the file system the first run left
  succeeds and leaves exactly that file system: the init file is byte-identical, and
  nothing accumulates between the markers.
\<close>

theorem second_run_is_fixed_point:
  assumes run: "autogen_init sa fs modpath_or_name imports False = Result (Inr (Written fs'))"
    and root: "exists fs modpath_or_name \<and> modpath = modpath_or_name
        \<or> \<not> exists fs modpath_or_name \<and> modname_to_modpath sa modpath_or_name = Some modpath"
    and raw: "files fs (path_join modpath ''__init__.py'') = Some raw"
    and ij: "i < j" and j: "j < length (readlines (universal_newlines raw))"
    and b: "is_begin (readlines (universal_newlines raw) ! i)"
    and e: "is_end (readlines (universal_newlines raw) ! j)"
    and notsub: "Some (path_join modpath ''__init__.py'') \<notin> set (import_paths sa modpath imports)"
    and plan: "static_parse_imports sa fs modpath imports = Inr (modname, imports', from_imports)"
    and nm: "CHR ''#'' \<notin> set modname"
    and ni: "\<forall>n\<in>set imports'. CHR ''#'' \<notin> set n"
    and nf: "\<forall>entry\<in>set from_imports.
        CHR ''#'' \<notin> set (fst entry) \<and> (\<forall>c\<in>set (snd entry). CHR ''#'' \<notin> set c)"
  shows "autogen_init sa fs' modpath_or_name imports False = Result (Inr (Written fs'))"
proof -
  let ?p = "path_join modpath ''__init__.py''"
  have res: "(if exists fs modpath_or_name then Inr modpath_or_name
            else (case modname_to_modpath sa modpath_or_name of
                    None \<Rightarrow> Inl (ValueError (''Invalid module '' @ modpath_or_name))
                  | Some p \<Rightarrow> Inr p)) = Inr modpath"
    using root by auto
  from run obtain block where
    blk: "initstr modname imports' from_imports False = Result block"
    and w: "autogen_init_write fs modpath block = Inr fs'"
    unfolding autogen_init_def res
    by (auto simp: plan split: sum.splits outcome.splits)
  from initstr_no_hash [OF nm ni nf blk] have nh: "CHR ''#'' \<notin> set block" .
  from autogen_init_write_idempotent [OF w raw ij j b e nh]
  have w': "autogen_init_write fs' modpath block = Inr fs'" and ex: "exists fs' = exists fs" .
  from w obtain out where "fs' = open_write fs ?p out"
    by (auto simp: autogen_init_write_def Let_def split: if_splits sum.splits)
  then have "\<forall>p. p \<noteq> ?p \<longrightarrow> files fs' p = files fs p"
    by (simp add: open_write_def)
  from static_parse_imports_other_file [OF notsub this]
  have unchanged: "static_parse_imports sa fs' modpath imports = static_parse_imports sa fs modpath imports" .
  have res': "(if exists fs' modpath_or_name then Inr modpath_or_name
            else (case modname_to_modpath sa modpath_or_name of
                    None \<Rightarrow> Inl (ValueError (''Invalid module '' @ modpath_or_name))
                  | Some p \<Rightarrow> Inr p)) = Inr modpath"
    unfolding ex by (rule res)
  show ?thesis
    unfolding autogen_init_def res' by (simp add: unchanged plan blk w')
qed

theorem second_run_is_fixed_point_witness:
  "autogen_init scenario_A_sa (scenario_A_fs None marked_file) ''pkg'' None False =
     Result (Inr (Written (open_write (scenario_A_fs None marked_file) ''pkg/__init__.py''
                             marked_file_generated)))
   \<and> autogen_init scenario_A_sa
       (open_write (scenario_A_fs None marked_file) ''pkg/__init__.py'' marked_file_generated)
       ''pkg'' None False =
     Result (Inr (Written (open_write (scenario_A_fs None marked_file) ''pkg/__init__.py''
                             marked_file_generated)))"
proof -
  let ?sa = scenario_A_sa and ?fs = "scenario_A_fs None marked_file"
  let ?fs' = "open_write ?fs ''pkg/__init__.py'' marked_file_generated"
  have pj: "path_join ''pkg'' ''__init__.py'' = ''pkg/__init__.py''"
    by (simp add: path_join_def)
  have raw: "files ?fs (path_join ''pkg'' ''__init__.py'') = Some marked_file"
    unfolding pj by (simp add: scenario_A_fs_def)
  have un: "universal_newlines marked_file = marked_file"
    by (simp add: marked_file_def)
  have rd: "open_read ?fs (Some ''pkg/__init__.py'') = Inr marked_file"
    using raw un by (simp add: open_read_def pj)
  have ls: "readlines marked_file =
      [''# <AUTOGEN_INIT>'' @ [NL], ''old'' @ [NL], ''# </AUTOGEN_INIT>'' @ [NL], ''footer = 1'' @ [NL]]"
    by (simp add: marked_file_def)
  have sc: "scan (readlines marked_file) =
      \<lparr>startline = 1, endline = 2, explicit = True, init_indent = []\<rparr>"
    unfolding ls by (simp add: scan_eval)
  have nt: "new_text (readlines marked_file) (scenario_A_block @ [NL]) = Inr marked_file_generated"
    unfolding new_text_def sc unfolding ls
    by (simp add: indent_def replace_nl_def rstrip_def isspace_def marked_file_generated_def
        scenario_A_block_def)
  have ex: "exists ?fs ''pkg/__init__.py''" "exists ?fs ''pkg''"
    by (simp_all add: exists_def scenario_A_fs_def)
  have w: "autogen_init_write ?fs ''pkg'' (scenario_A_block @ [NL]) = Inr ?fs'"
    by (simp add: autogen_init_write_def pj ex rd nt)
  have plan: "static_parse_imports ?sa ?fs ''pkg'' None =
     Inr (''pkg'', [''a'', ''b''], [(''a'', [''foo'']), (''b'', [])])"
    by (rule scenario_A_plan)
  have run: "autogen_init ?sa ?fs ''pkg'' None False = Result (Inr (Written ?fs'))"
    by (simp add: autogen_init_def ex plan scenario_A_initstr w)
  have root: "exists ?fs ''pkg'' \<and> ''pkg'' = ''pkg''
        \<or> \<not> exists ?fs ''pkg'' \<and> modname_to_modpath ?sa ''pkg'' = Some ''pkg''"
    using ex by simp
  have j: "2 < length (readlines (universal_newlines marked_file))"
    and b: "is_begin (readlines (universal_newlines marked_file) ! 0)"
    and e: "is_end (readlines (universal_newlines marked_file) ! 2)"
    unfolding un ls by (simp_all add: scan_eval)
  have notsub: "Some (path_join ''pkg'' ''__init__.py'') \<notin> set (import_paths ?sa ''pkg'' None)"
    unfolding pj by (simp add: import_paths_def scenario_A_sa_def)
  have n: "CHR ''#'' \<notin> set ''pkg''" "\<forall>n\<in>set [''a'', ''b'']. CHR ''#'' \<notin> set n"
    "\<forall>entry\<in>set [(''a'', [''foo'']), (''b'', [])].
        CHR ''#'' \<notin> set (fst entry) \<and> (\<forall>c\<in>set (snd entry). CHR ''#'' \<notin> set c)"
    by simp_all
  have ij: "(0::nat) < 2" by simp
  from second_run_is_fixed_point [OF run root raw ij j b e notsub plan n] run show ?thesis by simp
qed

end
